theory Spec2Isabelle
  imports Main "HOL-Library.Word"
begin

unbundle bit_operations_syntax

section \<open>Panics\<close>

text \<open>
  Every way in which the Go code can abort is a value of \<open>error\<close>: the three explicit
  \<^verbatim>\<open>panic\<close> calls of the sources, and the run-time panics of the language (an index out
  of range, a negative length given to \<^verbatim>\<open>make\<close>, a negative shift count).
  \<open>InvalidFree id pos\<close> carries the two numbers that
  \<^verbatim>\<open>fmt.Errorf("free invalid id:%d, next alloc pos:%d", id, ap.alloc)\<close> prints.
\<close>

datatype error =
    OutOfBound
  | CapLessThanZero
  | InvalidFree int int
  | IndexOutOfRange
  | MakeSliceLen
  | NegativeShift

text \<open>
  Go's \<^verbatim>\<open>int\<close> is modelled by \<open>int\<close>: every \<^verbatim>\<open>int\<close> of these sources is a length, a
  count or an index of a slice held in memory, far from the 64-bit bounds. The one place
  where the width of the machine integer matters is \<^verbatim>\<open>NearestPowerOf2\<close>, which works on
  \<^verbatim>\<open>uint\<close>; it is modelled on 64-bit words below. The zero value of the element type
  \<^verbatim>\<open>T\<close> is \<open>0\<close> of the class \<open>zero\<close>; \<^verbatim>\<open>make([]T, n)\<close> is \<open>n\<close> zero values.
\<close>

definition make_slice :: "int \<Rightarrow> error + ('a::zero) list" where
  "make_slice n = (if n < 0 then Inl MakeSliceLen else Inr (replicate (nat n) 0))"

text \<open>\<^verbatim>\<open>copy(dst, src)\<close> overwrites the first \<open>min (len dst) (len src)\<close> elements of \<open>dst\<close>.\<close>

definition copy :: "'a list \<Rightarrow> 'a list \<Rightarrow> 'a list" where
  "copy dst src = take (length dst) src @ drop (length src) dst"

section \<open>The contiguous pool: ArrayPool\<close>

text \<open>
  \<^verbatim>\<open>type ArrayPool[T any] struct { arr []T; alloc int; free map[int]struct{} }\<close>.
  The map is used as a set of keys.
\<close>

record 'a ArrayPool =
  arr :: "'a list"
  alloc :: int
  free :: "int set"

definition NewArrayPool :: "int \<Rightarrow> error + ('a::zero) ArrayPool" where
  "NewArrayPool cap =
     (if cap < 0 then Inl CapLessThanZero
      else case make_slice (cap + 1) of
             Inl e \<Rightarrow> Inl e
           | Inr a \<Rightarrow> Inr \<lparr>arr = a, alloc = 1, free = {}\<rparr>)"

definition nextCap :: "int \<Rightarrow> int" where
  "nextCap oldCap =
     (let doubleCap = oldCap + oldCap;
          threshold = 256
      in if oldCap < threshold then doubleCap
         else oldCap + drop_bit 2 (oldCap + 3 * threshold))"

text \<open>
  \<^verbatim>\<open>grow\<close>: the length of a slice is never negative, so neither is \<open>nextCap\<close> of it and
  \<^verbatim>\<open>make\<close> cannot panic here.
\<close>

definition grow :: "('a::zero) ArrayPool \<Rightarrow> 'a ArrayPool" where
  "grow ap =
     (let newCap = nextCap (int (length (arr ap)));
          newArray = replicate (nat newCap) 0
      in ap\<lparr>arr := copy newArray (arr ap)\<rparr>)"

text \<open>
  \<^verbatim>\<open>Alloc\<close> ranges over a Go map and returns at the first key: which key comes first is
  not determined. The model returns the set of all possible outcomes \<open>(id, pool after)\<close>.
  The function calls itself after \<^verbatim>\<open>grow\<close>; a call that never returns is \<open>None\<close>.
\<close>

partial_function (option) ArrayPool_Alloc ::
  "('a::zero) ArrayPool \<Rightarrow> (int \<times> 'a ArrayPool) set option" where
  "ArrayPool_Alloc ap =
     (if alloc ap < int (length (arr ap)) then
        Some {(alloc ap, ap\<lparr>alloc := alloc ap + 1\<rparr>)}
      else if free ap \<noteq> {} then
        Some ((\<lambda>k. (k, ap\<lparr>free := free ap - {k}\<rparr>)) ` free ap)
      else ArrayPool_Alloc (grow ap))"

text \<open>
  The same function with the nesting of its calls counted: \<open>ArrayPool_Alloc_depth d ap\<close>
  is the result when at most \<open>d\<close> activations of \<^verbatim>\<open>Alloc\<close> may be on the stack.
\<close>

fun ArrayPool_Alloc_depth ::
  "nat \<Rightarrow> ('a::zero) ArrayPool \<Rightarrow> (int \<times> 'a ArrayPool) set option" where
  "ArrayPool_Alloc_depth 0 ap = None"
| "ArrayPool_Alloc_depth (Suc d) ap =
     (if alloc ap < int (length (arr ap)) then
        Some {(alloc ap, ap\<lparr>alloc := alloc ap + 1\<rparr>)}
      else if free ap \<noteq> {} then
        Some ((\<lambda>k. (k, ap\<lparr>free := free ap - {k}\<rparr>)) ` free ap)
      else ArrayPool_Alloc_depth d (grow ap))"

text \<open>
  \<^verbatim>\<open>Free\<close>. After the explicit check, \<^verbatim>\<open>ap.arr[id] = ap.arr[0]\<close> is an indexed write and
  an indexed read; either panics when the index is not below \<open>len(ap.arr)\<close>.
\<close>

definition ArrayPool_Free :: "'a ArrayPool \<Rightarrow> int \<Rightarrow> error + 'a ArrayPool" where
  "ArrayPool_Free ap i =
     (if i \<le> 0 \<or> i \<ge> alloc ap then Inl (InvalidFree i (alloc ap))
      else if \<not> nat i < length (arr ap) then Inl IndexOutOfRange
      else
        let ap1 = ap\<lparr>arr := (arr ap)[nat i := arr ap ! 0]\<rparr> in
        if i = alloc ap1 - 1 then Inr (ap1\<lparr>alloc := alloc ap1 - 1\<rparr>)
        else if i \<in> free ap1 then Inr ap1
        else Inr (ap1\<lparr>free := insert i (free ap1)\<rparr>))"


text \<open>
  \<^verbatim>\<open>GetRef\<close> returns \<^verbatim>\<open>&ap.arr[id]\<close>: the pointer is modelled by the position in the
  array, and an assignment through it by \<open>ArrayPool_store\<close>.
\<close>

definition ArrayPool_GetRef :: "'a ArrayPool \<Rightarrow> int \<Rightarrow> error + nat" where
  "ArrayPool_GetRef ap i =
     (if 0 \<le> i \<and> nat i < length (arr ap) then Inr (nat i)
      else Inl IndexOutOfRange)"

definition ArrayPool_store :: "'a ArrayPool \<Rightarrow> nat \<Rightarrow> 'a \<Rightarrow> 'a ArrayPool" where
  "ArrayPool_store ap r v = ap\<lparr>arr := (arr ap)[r := v]\<rparr>"

text \<open>
  The states a program can reach: a new pool, and whatever \<^verbatim>\<open>Alloc\<close>, a \<^verbatim>\<open>Free\<close> that
  returns, and a write through a reference of \<^verbatim>\<open>GetRef\<close> make of a reachable state.
\<close>

inductive ArrayPool_reachable :: "('a::zero) ArrayPool \<Rightarrow> bool" where
  reach_new: "NewArrayPool cap = Inr ap \<Longrightarrow> ArrayPool_reachable ap"
| reach_alloc: "ArrayPool_reachable ap \<Longrightarrow> ArrayPool_Alloc ap = Some R \<Longrightarrow> (k, ap') \<in> R
     \<Longrightarrow> ArrayPool_reachable ap'"
| reach_free: "ArrayPool_reachable ap \<Longrightarrow> ArrayPool_Free ap i = Inr ap'
     \<Longrightarrow> ArrayPool_reachable ap'"
| reach_store: "ArrayPool_reachable ap \<Longrightarrow> ArrayPool_GetRef ap i = Inr r
     \<Longrightarrow> ArrayPool_reachable (ArrayPool_store ap r v)"


text \<open>
  What every reachable state satisfies (\<open>ArrayPool_reachable_inv\<close>): the allocation
  pointer is at least 1 and at most the capacity.
\<close>

definition ArrayPool_inv :: "'a ArrayPool \<Rightarrow> bool" where
  "ArrayPool_inv ap \<longleftrightarrow> 1 \<le> alloc ap \<and> alloc ap \<le> int (length (arr ap))"

section \<open>The segmented list: ArrayList\<close>

text \<open>
  \<^verbatim>\<open>NearestPowerOf2\<close> works on Go's \<^verbatim>\<open>uint\<close>, which is 64 bits wide on the 64-bit
  platforms (and 32 bits wide on the 32-bit ones, where the last shift by 16 completes the
  filling): the subtraction and the addition wrap around, \<^verbatim>\<open>>>\<close> is the logical shift.
\<close>

definition NearestPowerOf2 :: "64 word \<Rightarrow> 64 word" where
  "NearestPowerOf2 n0 =
     (let n = n0 - 1;
          n = n OR drop_bit 1 n;
          n = n OR drop_bit 2 n;
          n = n OR drop_bit 4 n;
          n = n OR drop_bit 8 n;
          n = n OR drop_bit 16 n;
          n = n + 1
      in n)"

text \<open>
  \<^verbatim>\<open>bits.TrailingZeros\<close> belongs to the Go library \<^verbatim>\<open>math/bits\<close>, not to the
  repository; by its documentation it is the number of trailing zero bits of its
  argument, and the width of \<^verbatim>\<open>uint\<close> for the argument 0.
\<close>

definition TrailingZeros :: "64 word \<Rightarrow> int" where
  "TrailingZeros x = int (length (takeWhile (\<lambda>i. \<not> bit x i) [0..<64]))"

definition DefaultSegmentSize :: int where
  "DefaultSegmentSize = 128"

record 'a Segment =
  seg_arr :: "'a list"
  seg_count :: int

record 'a ArrayList =
  defaultValue :: 'a
  count :: int
  segments :: "'a Segment list"
  segmentIdx :: int
  segmentSize :: int
  segmentSizeMask :: int
  segmentSizeShift :: int

text \<open>
  The conversions \<^verbatim>\<open>uint(x)\<close> and \<^verbatim>\<open>int(x)\<close> keep the 64 bits: \<open>word_of_int\<close> and
  \<open>sint\<close>.
\<close>

definition NewArrayList :: "int \<Rightarrow> ('a::zero) ArrayList" where
  "NewArrayList segmentSize0 =
     (let segmentSize1 = (if segmentSize0 \<le> 0 then DefaultSegmentSize else segmentSize0);
          size = sint (NearestPowerOf2 (word_of_int segmentSize1))
      in \<lparr>defaultValue = 0, count = 0, segments = [], segmentIdx = 0,
          segmentSize = size,
          segmentSizeMask = size - 1,
          segmentSizeShift = TrailingZeros (word_of_int size)\<rparr>)"

text \<open>An index expression \<^verbatim>\<open>xs[i]\<close> panics unless \<open>0 \<le> i < len(xs)\<close>.\<close>

definition in_range :: "int \<Rightarrow> 'b list \<Rightarrow> bool" where
  "in_range i xs \<longleftrightarrow> 0 \<le> i \<and> i < int (length xs)"

text \<open>\<^verbatim>\<open>al.segments = append(al.segments, Segment[T]{arr: make([]T, al.segmentSize)})\<close>\<close>

definition append_segment :: "('a::zero) ArrayList \<Rightarrow> error + 'a ArrayList" where
  "append_segment al =
     (case make_slice (segmentSize al) of
        Inl e \<Rightarrow> Inl e
      | Inr a \<Rightarrow> Inr (al\<lparr>segments := segments al @ [\<lparr>seg_arr = a, seg_count = 0\<rparr>]\<rparr>))"

text \<open>
  A pointer \<^verbatim>\<open>&segment.arr[j]\<close> into the list is modelled by the pair of the segment's
  number and the offset \<open>j\<close> in its array; \<open>ArrayList_load\<close> and \<open>ArrayList_store\<close> read
  and assign through such a pointer.
\<close>

type_synonym slot_ref = "nat \<times> nat"

definition ArrayList_load :: "'a ArrayList \<Rightarrow> slot_ref \<Rightarrow> 'a" where
  "ArrayList_load al r = seg_arr (segments al ! fst r) ! snd r"

definition ArrayList_store :: "'a ArrayList \<Rightarrow> slot_ref \<Rightarrow> 'a \<Rightarrow> 'a ArrayList" where
  "ArrayList_store al r v =
     al\<lparr>segments := (segments al)
           [fst r := (segments al ! fst r)
              \<lparr>seg_arr := (seg_arr (segments al ! fst r))[snd r := v]\<rparr>]\<rparr>"

definition ArrayList_Alloc :: "('a::zero) ArrayList \<Rightarrow> error + (slot_ref \<times> 'a ArrayList)" where
  "ArrayList_Alloc al =
     (case
        (if length (segments al) = 0 then append_segment al
         else if \<not> in_range (segmentIdx al) (segments al) then Inl IndexOutOfRange
         else if seg_count (segments al ! nat (segmentIdx al)) = segmentSize al then
           (case (if segmentIdx al = int (length (segments al)) - 1 then append_segment al
                  else Inr al) of
              Inl e \<Rightarrow> Inl e
            | Inr al1 \<Rightarrow> Inr (al1\<lparr>segmentIdx := segmentIdx al1 + 1\<rparr>))
         else Inr al)
      of
        Inl e \<Rightarrow> Inl e
      | Inr al1 \<Rightarrow>
          if \<not> in_range (segmentIdx al1) (segments al1) then Inl IndexOutOfRange
          else
            let s = nat (segmentIdx al1);
                segment = (segments al1 ! s)\<lparr>seg_count := seg_count (segments al1 ! s) + 1\<rparr>;
                al2 = al1\<lparr>segments := (segments al1)[s := segment], count := count al1 + 1\<rparr>
            in if \<not> in_range (seg_count segment - 1) (seg_arr segment) then Inl IndexOutOfRange
               else Inr ((s, nat (seg_count segment - 1)), al2))"

text \<open>
  \<^verbatim>\<open>Get\<close> and \<^verbatim>\<open>GetRef\<close>: the explicit panic, then the shift (a negative shift count
  panics), the index into the segments and the index into the segment's array.
\<close>

definition ArrayList_GetRef :: "'a ArrayList \<Rightarrow> int \<Rightarrow> error + slot_ref" where
  "ArrayList_GetRef al idx =
     (if idx \<ge> count al then Inl OutOfBound
      else if segmentSizeShift al < 0 then Inl NegativeShift
      else
        let s = drop_bit (nat (segmentSizeShift al)) idx;
            off = idx AND segmentSizeMask al
        in if \<not> in_range s (segments al) then Inl IndexOutOfRange
           else if \<not> in_range off (seg_arr (segments al ! nat s)) then Inl IndexOutOfRange
           else Inr (nat s, nat off))"

definition ArrayList_Get :: "'a ArrayList \<Rightarrow> int \<Rightarrow> error + 'a" where
  "ArrayList_Get al idx =
     (case ArrayList_GetRef al idx of
        Inl e \<Rightarrow> Inl e
      | Inr r \<Rightarrow> Inr (ArrayList_load al r))"

definition ArrayList_RemoveLast :: "'a ArrayList \<Rightarrow> error + 'a ArrayList" where
  "ArrayList_RemoveLast al =
     (if count al \<le> 0 then Inr al
      else if \<not> in_range (segmentIdx al) (segments al) then Inl IndexOutOfRange
      else
        let s = nat (segmentIdx al);
            segment = (segments al ! s)\<lparr>seg_count := seg_count (segments al ! s) - 1\<rparr>;
            al1 = al\<lparr>segments := (segments al)[s := segment], count := count al - 1\<rparr>
        in if seg_count segment > 0 then Inr al1
           else
             let lastEmpty = segmentIdx al1;
                 al2 = (if segmentIdx al1 > 0 then al1\<lparr>segmentIdx := segmentIdx al1 - 1\<rparr>
                        else al1)
             in if int (length (segments al2)) - 1 = lastEmpty then Inr al2
                else
                  let lastEmpty1 = lastEmpty + 1 in
                  if \<not> in_range lastEmpty1 (segments al2) then Inl IndexOutOfRange
                  else Inr (al2\<lparr>segments :=
                         take (nat lastEmpty1)
                           ((segments al2)[nat lastEmpty1 := \<lparr>seg_arr = [], seg_count = 0\<rparr>])\<rparr>))"

definition ArrayList_Clear :: "'a ArrayList \<Rightarrow> 'a ArrayList" where
  "ArrayList_Clear al = al\<lparr>segments := [], count := 0, segmentIdx := 0\<rparr>"

definition ArrayList_Count :: "'a ArrayList \<Rightarrow> int" where
  "ArrayList_Count al = count al"

text \<open>
  The states of a list that the operations keep to (a well-formed list): the size is a
  power of two with its mask and shift, every segment has an array of that size, the
  segments before the cursor are full, the cursor's segment holds the rest (at least one
  element unless the cursor is 0), at most one segment follows the cursor and it is
  empty. \<open>NewArrayList\<close> establishes it for every requested size up to \<open>2^32\<close>
  (\<open>NewArrayList_inv\<close>), and \<^verbatim>\<open>Alloc\<close>, \<^verbatim>\<open>RemoveLast\<close>, \<^verbatim>\<open>Clear\<close> and the writes through
  references keep it (\<open>ArrayList_reachable_inv\<close>).
\<close>

definition ArrayList_inv :: "'a ArrayList \<Rightarrow> bool" where
  "ArrayList_inv al \<longleftrightarrow>
     0 \<le> segmentSizeShift al \<and>
     segmentSize al = 2 ^ nat (segmentSizeShift al) \<and>
     segmentSizeMask al = segmentSize al - 1 \<and>
     (segments al = [] \<longrightarrow> count al = 0 \<and> segmentIdx al = 0) \<and>
     (segments al \<noteq> [] \<longrightarrow>
        in_range (segmentIdx al) (segments al) \<and>
        int (length (segments al)) \<le> segmentIdx al + 2 \<and>
        (if segmentIdx al = 0 then 0 else 1) \<le> count al - segmentIdx al * segmentSize al \<and>
        count al - segmentIdx al * segmentSize al \<le> segmentSize al \<and>
        (\<forall>i < length (segments al).
           length (seg_arr (segments al ! i)) = nat (segmentSize al) \<and>
           seg_count (segments al ! i) =
             (if int i < segmentIdx al then segmentSize al
              else if int i = segmentIdx al then count al - segmentIdx al * segmentSize al
              else 0)))"

text \<open>
  The address that \<^verbatim>\<open>Get\<close> and \<^verbatim>\<open>GetRef\<close> compute for an index:
  \<^verbatim>\<open>(idx >> al.segmentSizeShift, idx & al.segmentSizeMask)\<close>.
\<close>

definition slot_of :: "'a ArrayList \<Rightarrow> int \<Rightarrow> slot_ref" where
  "slot_of al idx =
     (nat (drop_bit (nat (segmentSizeShift al)) idx), nat (idx AND segmentSizeMask al))"

section \<open>The segmented pool: Pool\<close>

text \<open>
  \<^verbatim>\<open>type Pool[T any] struct { frees map[int]struct{}; items *ArrayList[T] }\<close>. The pool
  owns its list, so the list is a field of the state.
\<close>

record 'a Pool =
  frees :: "int set"
  items :: "'a ArrayList"

definition NewPool :: "int \<Rightarrow> ('a::zero) Pool" where
  "NewPool segmentSize0 = \<lparr>frees = {}, items = NewArrayList segmentSize0\<rparr>"

text \<open>
  \<^verbatim>\<open>Alloc\<close> returns at the first key of a range over the map \<^verbatim>\<open>frees\<close>: the model is the
  set of the possible outcomes, a panic or \<open>(index, pointer, pool after)\<close>.
\<close>

definition Pool_Alloc :: "('a::zero) Pool \<Rightarrow> (error + (int \<times> slot_ref \<times> 'a Pool)) set" where
  "Pool_Alloc p =
     (if frees p \<noteq> {} then
        (\<lambda>k. case ArrayList_GetRef (items p) k of
                Inl e \<Rightarrow> Inl e
              | Inr r \<Rightarrow> Inr (k, r, p\<lparr>frees := frees p - {k}\<rparr>)) ` frees p
      else
        {case ArrayList_Alloc (items p) of
           Inl e \<Rightarrow> Inl e
         | Inr (r, al) \<Rightarrow> Inr (ArrayList_Count (items p), r, p\<lparr>items := al\<rparr>)})"

definition Pool_Free :: "'a Pool \<Rightarrow> int \<Rightarrow> error + 'a Pool" where
  "Pool_Free p i =
     (if i < 0 \<or> i \<ge> ArrayList_Count (items p) then Inr p
      else if i \<in> frees p then Inr p
      else case ArrayList_GetRef (items p) i of
             Inl e \<Rightarrow> Inl e
           | Inr r \<Rightarrow>
               Inr (p\<lparr>items := ArrayList_store (items p) r (defaultValue (items p)),
                      frees := insert i (frees p)\<rparr>))"


definition Pool_Count :: "'a Pool \<Rightarrow> int" where
  "Pool_Count p = ArrayList_Count (items p) - int (card (frees p))"

text \<open>
  The states of a pool that the operations keep to: its list as above, and finitely many
  free indices, all of them indices of the list.
\<close>

definition Pool_inv :: "'a Pool \<Rightarrow> bool" where
  "Pool_inv p \<longleftrightarrow>
     ArrayList_inv (items p) \<and> finite (frees p) \<and>
     (\<forall>i \<in> frees p. 0 \<le> i \<and> i < count (items p))"

section \<open>Sequences of calls\<close>

text \<open>
  \<open>Pool_allocs p ks p'\<close>: a sequence of calls of \<^verbatim>\<open>Alloc\<close>, none of which panics, can
  return the indices \<open>ks\<close> in this order and lead from \<open>p\<close> to \<open>p'\<close>.
  \<open>Pool_Free_all p fs\<close> calls \<^verbatim>\<open>Free\<close> on the indices \<open>fs\<close> in order. The same for
  the contiguous pool.
\<close>

inductive Pool_allocs :: "('a::zero) Pool \<Rightarrow> int list \<Rightarrow> 'a Pool \<Rightarrow> bool" where
  Pool_allocs_Nil: "Pool_allocs p [] p"
| Pool_allocs_Cons: "Inr (k, r, p') \<in> Pool_Alloc p \<Longrightarrow> Pool_allocs p' ks p''
     \<Longrightarrow> Pool_allocs p (k # ks) p''"

fun Pool_Free_all :: "'a Pool \<Rightarrow> int list \<Rightarrow> error + 'a Pool" where
  "Pool_Free_all p [] = Inr p"
| "Pool_Free_all p (i # is) =
     (case Pool_Free p i of Inl e \<Rightarrow> Inl e | Inr p' \<Rightarrow> Pool_Free_all p' is)"

inductive ArrayPool_allocs ::
  "('a::zero) ArrayPool \<Rightarrow> int list \<Rightarrow> 'a ArrayPool \<Rightarrow> bool" where
  ArrayPool_allocs_Nil: "ArrayPool_allocs ap [] ap"
| ArrayPool_allocs_Cons: "ArrayPool_Alloc ap = Some R \<Longrightarrow> (k, ap') \<in> R
     \<Longrightarrow> ArrayPool_allocs ap' ks ap'' \<Longrightarrow> ArrayPool_allocs ap (k # ks) ap''"

fun ArrayPool_Free_all :: "'a ArrayPool \<Rightarrow> int list \<Rightarrow> error + 'a ArrayPool" where
  "ArrayPool_Free_all ap [] = Inr ap"
| "ArrayPool_Free_all ap (i # is) =
     (case ArrayPool_Free ap i of Inl e \<Rightarrow> Inl e | Inr ap' \<Rightarrow> ArrayPool_Free_all ap' is)"

text \<open>\<open>ArrayList_Alloc_n n al\<close> calls \<^verbatim>\<open>Alloc\<close> on the list \<open>n\<close> times.\<close>

fun ArrayList_Alloc_n :: "nat \<Rightarrow> ('a::zero) ArrayList \<Rightarrow> error + 'a ArrayList" where
  "ArrayList_Alloc_n 0 al = Inr al"
| "ArrayList_Alloc_n (Suc n) al =
     (case ArrayList_Alloc al of Inl e \<Rightarrow> Inl e | Inr (r, al') \<Rightarrow> ArrayList_Alloc_n n al')"

text \<open>
  \<^verbatim>\<open>RemoveLast\<close> as the specification words it, to be compared with the code: when the
  cursor segment becomes empty, the cursor retreats by one segment (clamped at zero) and,
  unless the drained segment was already the last one in the list, the array of the
  segment immediately after the new cursor is dropped and the segment list is truncated
  to exclude it.
\<close>

definition ArrayList_RemoveLast_spec :: "'a ArrayList \<Rightarrow> error + 'a ArrayList" where
  "ArrayList_RemoveLast_spec al =
     (if count al \<le> 0 then Inr al
      else if \<not> in_range (segmentIdx al) (segments al) then Inl IndexOutOfRange
      else
        let s = nat (segmentIdx al);
            segment = (segments al ! s)\<lparr>seg_count := seg_count (segments al ! s) - 1\<rparr>;
            al1 = al\<lparr>segments := (segments al)[s := segment], count := count al - 1\<rparr>
        in if seg_count segment > 0 then Inr al1
           else
             let drained = segmentIdx al1;
                 al2 = al1\<lparr>segmentIdx := max 0 (segmentIdx al1 - 1)\<rparr>
             in if int (length (segments al2)) - 1 = drained then Inr al2
                else Inr (al2\<lparr>segments := take (nat (segmentIdx al2 + 1)) (segments al2)\<rparr>))"

text \<open>
  The states of a list and of a segmented pool that a program can reach, with a requested
  segment size of at most \<open>2^32\<close> (see \<open>NearestPowerOf2\<close> for the sizes above): a new
  one, and what \<^verbatim>\<open>Alloc\<close>, \<^verbatim>\<open>RemoveLast\<close>, \<^verbatim>\<open>Free\<close>, \<^verbatim>\<open>Clear\<close> and a write through
  a reference of \<^verbatim>\<open>GetRef\<close> make of a reachable state, when they return.
\<close>

inductive ArrayList_reachable :: "('a::zero) ArrayList \<Rightarrow> bool" where
  al_reach_new: "n \<le> 2 ^ 32 \<Longrightarrow> ArrayList_reachable (NewArrayList n)"
| al_reach_alloc: "ArrayList_reachable al \<Longrightarrow> ArrayList_Alloc al = Inr (r, al')
     \<Longrightarrow> ArrayList_reachable al'"
| al_reach_store: "ArrayList_reachable al \<Longrightarrow> ArrayList_GetRef al idx = Inr r
     \<Longrightarrow> ArrayList_reachable (ArrayList_store al r v)"
| al_reach_remove: "ArrayList_reachable al \<Longrightarrow> ArrayList_RemoveLast al = Inr al'
     \<Longrightarrow> ArrayList_reachable al'"
| al_reach_clear: "ArrayList_reachable al \<Longrightarrow> ArrayList_reachable (ArrayList_Clear al)"


text \<open>
  For the analysis of \<open>NearestPowerOf2\<close>: in \<open>x\<close> no bit above \<open>k\<close> is set, and the \<open>d\<close>
  bits from \<open>k\<close> downwards are all set.
\<close>

definition filled :: "nat \<Rightarrow> nat \<Rightarrow> 64 word \<Rightarrow> bool" where
  "filled d k x \<longleftrightarrow> (\<forall>i. bit x i \<longrightarrow> i \<le> k) \<and> (\<forall>i. i \<le> k \<and> k < i + d \<longrightarrow> bit x i)"

section \<open>Properties of the contiguous pool\<close>

lemma length_copy: "length (copy dst src) = length dst"
  by (simp add: copy_def)

lemma nextCap_gt: "1 \<le> c \<Longrightarrow> c < nextCap c"
proof -
  assume c: "1 \<le> c"
  have "0 \<le> (c + 768) div 4 - 1" using c by simp
  then show ?thesis using c by (simp add: nextCap_def Let_def drop_bit_eq_div)
qed

lemma length_grow: "length (arr (grow ap)) = nat (nextCap (int (length (arr ap))))"
  by (simp add: grow_def Let_def length_copy)

lemma grow_enlarges:
  assumes "arr ap \<noteq> []"
  shows "length (arr ap) < length (arr (grow ap))"
proof -
  have "1 \<le> int (length (arr ap))" using assms by (cases "arr ap") simp_all
  from nextCap_gt [OF this] show ?thesis by (simp add: length_grow)
qed

lemma grow_fields [simp]: "alloc (grow ap) = alloc ap" "free (grow ap) = free ap"
  by (simp_all add: grow_def Let_def)

lemma ArrayPool_Alloc_depth_sound:
  "ArrayPool_Alloc_depth d ap = Some R \<Longrightarrow> ArrayPool_Alloc ap = Some R"
proof (induction d arbitrary: ap)
  case 0
  then show ?case by simp
next
  case (Suc d)
  show ?case
  proof (cases "alloc ap < int (length (arr ap)) \<or> free ap \<noteq> {}")
    case True
    with Suc.prems show ?thesis
      by (subst ArrayPool_Alloc.simps) (auto split: if_splits)
  next
    case False
    with Suc.prems have "ArrayPool_Alloc_depth d (grow ap) = Some R" by simp
    from Suc.IH [OF this] False show ?thesis
      by (subst ArrayPool_Alloc.simps) simp
  qed
qed

lemma ArrayPool_Alloc_depth_2:
  assumes "ArrayPool_inv ap"
  shows "ArrayPool_Alloc_depth 2 ap =
     Some (if alloc ap < int (length (arr ap)) then {(alloc ap, ap\<lparr>alloc := alloc ap + 1\<rparr>)}
           else if free ap \<noteq> {} then (\<lambda>k. (k, ap\<lparr>free := free ap - {k}\<rparr>)) ` free ap
           else {(alloc ap, (grow ap)\<lparr>alloc := alloc ap + 1\<rparr>)})"
proof -
  have ne: "arr ap \<noteq> []" using assms by (auto simp: ArrayPool_inv_def)
  have "alloc ap < int (length (arr (grow ap)))"
    using grow_enlarges [OF ne] assms by (simp add: ArrayPool_inv_def)
  then show ?thesis by (simp add: numeral_2_eq_2)
qed

lemma ArrayPool_inv_new: "NewArrayPool cap = Inr ap \<Longrightarrow> ArrayPool_inv ap"
  by (auto simp: NewArrayPool_def make_slice_def ArrayPool_inv_def split: if_splits)

lemma ArrayPool_inv_alloc:
  assumes "ArrayPool_inv ap" "ArrayPool_Alloc ap = Some R" "(k, ap') \<in> R"
  shows "ArrayPool_inv ap'"
proof -
  have ne: "arr ap \<noteq> []" using assms(1) by (auto simp: ArrayPool_inv_def)
  have g: "alloc ap < int (length (arr (grow ap)))"
    using grow_enlarges [OF ne] assms(1) by (simp add: ArrayPool_inv_def)
  from ArrayPool_Alloc_depth_sound [OF ArrayPool_Alloc_depth_2 [OF assms(1)]] assms(2)
  have "R = (if alloc ap < int (length (arr ap)) then {(alloc ap, ap\<lparr>alloc := alloc ap + 1\<rparr>)}
           else if free ap \<noteq> {} then (\<lambda>k. (k, ap\<lparr>free := free ap - {k}\<rparr>)) ` free ap
           else {(alloc ap, (grow ap)\<lparr>alloc := alloc ap + 1\<rparr>)})" by simp
  with assms(1,3) g show ?thesis
    by (auto simp: ArrayPool_inv_def split: if_splits)
qed

lemma ArrayPool_inv_free: "ArrayPool_inv ap \<Longrightarrow> ArrayPool_Free ap i = Inr ap' \<Longrightarrow> ArrayPool_inv ap'"
  by (auto simp: ArrayPool_inv_def ArrayPool_Free_def Let_def split: if_splits)

lemma ArrayPool_inv_store: "ArrayPool_inv ap \<Longrightarrow> ArrayPool_inv (ArrayPool_store ap r v)"
  by (simp add: ArrayPool_inv_def ArrayPool_store_def)

lemma ArrayPool_reachable_inv: "ArrayPool_reachable ap \<Longrightarrow> ArrayPool_inv ap"
  by (induction rule: ArrayPool_reachable.induct)
     (auto intro: ArrayPool_inv_new ArrayPool_inv_alloc ArrayPool_inv_free ArrayPool_inv_store)

text \<open>
  Claim C10 (termination of the contiguous \<^verbatim>\<open>Alloc\<close>). In every reachable state of the
  pool \<^verbatim>\<open>Alloc\<close> returns, with a non-empty set of possible outcomes, and it returns with at
  most two activations on the stack; \<open>nextCap c\<close> is greater than \<open>c\<close> for every
  \<open>c \<ge> 1\<close>, \<^verbatim>\<open>grow\<close> makes the array strictly longer and after it the allocation pointer
  is below the capacity, so that the retry returns in its first branch.
\<close>

theorem ArrayPool_Alloc_terminates:
  assumes "ArrayPool_reachable ap"
  shows "(\<exists>R. ArrayPool_Alloc ap = Some R \<and> ArrayPool_Alloc_depth 2 ap = Some R \<and> R \<noteq> {})
       \<and> (\<forall>c\<ge>1. c < nextCap c)
       \<and> length (arr ap) < length (arr (grow ap))
       \<and> alloc (grow ap) < int (length (arr (grow ap)))"
proof -
  have inv: "ArrayPool_inv ap" by (rule ArrayPool_reachable_inv [OF assms])
  have ne: "arr ap \<noteq> []" using inv by (auto simp: ArrayPool_inv_def)
  have g: "alloc ap < int (length (arr (grow ap)))"
    using grow_enlarges [OF ne] inv by (simp add: ArrayPool_inv_def)
  note d = ArrayPool_Alloc_depth_2 [OF inv]
  have "\<exists>R. ArrayPool_Alloc ap = Some R \<and> ArrayPool_Alloc_depth 2 ap = Some R \<and> R \<noteq> {}"
    using ArrayPool_Alloc_depth_sound [OF d] d by (auto split: if_splits)
  moreover have "\<forall>c\<ge>1. c < nextCap c" by (simp add: nextCap_gt)
  ultimately show ?thesis using grow_enlarges [OF ne] g by simp
qed

lemma nextCap_ge: "0 \<le> c \<Longrightarrow> c \<le> nextCap c"
  by (auto simp: nextCap_def Let_def drop_bit_eq_div)

lemma nextCap_formula:
  "nextCap c = (if c < 256 then c * 2 else c + (c + 3 * 256) div 4)"
  by (simp add: nextCap_def Let_def drop_bit_eq_div)

lemma arr_grow:
  "arr (grow ap) = arr ap @ replicate (length (arr (grow ap)) - length (arr ap)) 0"
proof -
  have "int (length (arr ap)) \<le> nextCap (int (length (arr ap)))" by (rule nextCap_ge) simp
  then have "length (arr ap) \<le> nat (nextCap (int (length (arr ap))))" by simp
  then show ?thesis by (simp add: grow_def Let_def copy_def)
qed

text \<open>
  Claim C5 (allocation policy of the contiguous pool). In every state: when the allocation
  pointer is below the capacity, \<^verbatim>\<open>Alloc\<close> returns it and increments it; otherwise, when
  the free set is not empty, the possible outcomes are exactly the members of the free
  set, each removed from it; otherwise \<^verbatim>\<open>Alloc\<close> is \<^verbatim>\<open>Alloc\<close> of the grown pool, whose
  array has \<open>old * 2\<close> elements when \<open>old < 256\<close> and \<open>old + (old + 3 * 256) div 4\<close>
  otherwise, starts with all the old elements and continues with zero values.
\<close>

theorem ArrayPool_Alloc_policy:
  "(alloc ap < int (length (arr ap)) \<longrightarrow>
      ArrayPool_Alloc ap = Some {(alloc ap, ap\<lparr>alloc := alloc ap + 1\<rparr>)}) \<and>
   (int (length (arr ap)) \<le> alloc ap \<and> free ap \<noteq> {} \<longrightarrow>
      ArrayPool_Alloc ap = Some {(k, ap\<lparr>free := free ap - {k}\<rparr>) |k. k \<in> free ap}) \<and>
   (int (length (arr ap)) \<le> alloc ap \<and> free ap = {} \<longrightarrow>
      ArrayPool_Alloc ap = ArrayPool_Alloc (grow ap) \<and>
      int (length (arr (grow ap))) =
        (if int (length (arr ap)) < 256 then int (length (arr ap)) * 2
         else int (length (arr ap)) + (int (length (arr ap)) + 3 * 256) div 4) \<and>
      take (length (arr ap)) (arr (grow ap)) = arr ap \<and>
      drop (length (arr ap)) (arr (grow ap)) =
        replicate (length (arr (grow ap)) - length (arr ap)) 0 \<and>
      alloc (grow ap) = alloc ap \<and> free (grow ap) = free ap)"
proof (intro conjI impI)
  assume "alloc ap < int (length (arr ap))"
  then show "ArrayPool_Alloc ap = Some {(alloc ap, ap\<lparr>alloc := alloc ap + 1\<rparr>)}"
    by (subst ArrayPool_Alloc.simps) simp
next
  assume "int (length (arr ap)) \<le> alloc ap \<and> free ap \<noteq> {}"
  then show "ArrayPool_Alloc ap = Some {(k, ap\<lparr>free := free ap - {k}\<rparr>) |k. k \<in> free ap}"
    by (subst ArrayPool_Alloc.simps) (auto simp: image_def)
next
  assume "int (length (arr ap)) \<le> alloc ap \<and> free ap = {}"
  then show "ArrayPool_Alloc ap = ArrayPool_Alloc (grow ap)"
    by (subst ArrayPool_Alloc.simps) simp
next
  have "0 \<le> nextCap (int (length (arr ap)))"
    using nextCap_ge [of "int (length (arr ap))"] by simp
  then show "int (length (arr (grow ap))) =
        (if int (length (arr ap)) < 256 then int (length (arr ap)) * 2
         else int (length (arr ap)) + (int (length (arr ap)) + 3 * 256) div 4)"
    by (simp add: length_grow nextCap_formula)
next
  show "take (length (arr ap)) (arr (grow ap)) = arr ap"
    by (subst arr_grow) simp
next
  show "drop (length (arr ap)) (arr (grow ap)) =
        replicate (length (arr (grow ap)) - length (arr ap)) 0"
    by (subst arr_grow) simp
qed simp_all

theorem ArrayPool_Alloc_policy_witness:
  "ArrayPool_Alloc \<lparr>arr = [0, 5::int], alloc = 1, free = {}\<rparr>
     = Some {(1, \<lparr>arr = [0, 5], alloc = 2, free = {}\<rparr>)} \<and>
   ArrayPool_Alloc \<lparr>arr = [0, 5::int], alloc = 2, free = {1}\<rparr>
     = Some {(1, \<lparr>arr = [0, 5], alloc = 2, free = {}\<rparr>)} \<and>
   ArrayPool_Alloc \<lparr>arr = [0, 5::int], alloc = 2, free = {}\<rparr>
     = Some {(2, \<lparr>arr = [0, 5, 0, 0], alloc = 3, free = {}\<rparr>)}"
proof -
  have g: "grow \<lparr>arr = [0, 5::int], alloc = 2, free = {}\<rparr>
         = \<lparr>arr = [0, 5, 0, 0], alloc = 2, free = {}\<rparr>"
    by (simp add: grow_def nextCap_def copy_def Let_def numeral_eq_Suc)
  show ?thesis
    using ArrayPool_Alloc_policy [of "\<lparr>arr = [0, 5::int], alloc = 1, free = {}\<rparr>"]
          ArrayPool_Alloc_policy [of "\<lparr>arr = [0, 5::int], alloc = 2, free = {1}\<rparr>"]
          ArrayPool_Alloc_policy [of "\<lparr>arr = [0, 5::int], alloc = 2, free = {}\<rparr>"]
          ArrayPool_Alloc_policy [of "\<lparr>arr = [0, 5, 0, 0::int], alloc = 2, free = {}\<rparr>"]
    by (simp add: g)
qed

text \<open>
  Claim C6 (an invalid free is fatal in the contiguous pool). \<^verbatim>\<open>Free\<close> panics with the
  error carrying the id and the allocation pointer when \<open>id \<le> 0\<close> or \<open>id \<ge> alloc\<close>; for
  \<open>0 < id < alloc\<close> it never raises that error, and in a reachable state it returns.
\<close>

theorem ArrayPool_Free_invalid:
  "(i \<le> 0 \<or> alloc ap \<le> i \<longrightarrow> ArrayPool_Free ap i = Inl (InvalidFree i (alloc ap))) \<and>
   (0 < i \<and> i < alloc ap \<longrightarrow> (\<forall>a b. ArrayPool_Free ap i \<noteq> Inl (InvalidFree a b))) \<and>
   (ArrayPool_reachable ap \<and> 0 < i \<and> i < alloc ap \<longrightarrow> (\<exists>ap'. ArrayPool_Free ap i = Inr ap'))"
proof (intro conjI impI)
  assume "ArrayPool_reachable ap \<and> 0 < i \<and> i < alloc ap"
  then have "ArrayPool_inv ap" "0 < i" "i < alloc ap"
    by (simp_all add: ArrayPool_reachable_inv)
  then show "\<exists>ap'. ArrayPool_Free ap i = Inr ap'"
    by (auto simp: ArrayPool_Free_def ArrayPool_inv_def Let_def)
qed (auto simp: ArrayPool_Free_def Let_def)

theorem ArrayPool_Free_invalid_witness:
  "ArrayPool_Free \<lparr>arr = [0, 5, 0::int], alloc = 2, free = {}\<rparr> 0 = Inl (InvalidFree 0 2) \<and>
   ArrayPool_Free \<lparr>arr = [0, 5, 0::int], alloc = 2, free = {}\<rparr> 2 = Inl (InvalidFree 2 2) \<and>
   ArrayPool_reachable \<lparr>arr = [0, 5, 0::int], alloc = 2, free = {}\<rparr> \<and>
   (\<exists>ap'. ArrayPool_Free \<lparr>arr = [0, 5, 0::int], alloc = 2, free = {}\<rparr> 1 = Inr ap')"
proof -
  have n: "NewArrayPool 2 = Inr \<lparr>arr = [0, 0, 0::int], alloc = 1, free = {}\<rparr>"
    by (simp add: NewArrayPool_def make_slice_def numeral_eq_Suc)
  have a: "ArrayPool_Alloc \<lparr>arr = [0, 0, 0::int], alloc = 1, free = {}\<rparr>
         = Some {(1, \<lparr>arr = [0, 0, 0], alloc = 2, free = {}\<rparr>)}"
    by (subst ArrayPool_Alloc.simps) simp
  have r1: "ArrayPool_reachable \<lparr>arr = [0, 0, 0::int], alloc = 2, free = {}\<rparr>"
    by (rule reach_alloc [OF reach_new [OF n] a]) simp
  have "ArrayPool_GetRef \<lparr>arr = [0, 0, 0::int], alloc = 2, free = {}\<rparr> 1 = Inr 1"
    by (simp add: ArrayPool_GetRef_def)
  from reach_store [OF r1 this, of 5]
  have r: "ArrayPool_reachable \<lparr>arr = [0, 5, 0::int], alloc = 2, free = {}\<rparr>"
    by (simp add: ArrayPool_store_def)
  show ?thesis
    using ArrayPool_Free_invalid [of 0 "\<lparr>arr = [0, 5, 0::int], alloc = 2, free = {}\<rparr>"]
          ArrayPool_Free_invalid [of 2 "\<lparr>arr = [0, 5, 0::int], alloc = 2, free = {}\<rparr>"]
          ArrayPool_Free_invalid [of 1 "\<lparr>arr = [0, 5, 0::int], alloc = 2, free = {}\<rparr>"] r
    by simp
qed

theorem ArrayPool_Alloc_terminates_witness:
  "ArrayPool_reachable \<lparr>arr = [0::int], alloc = 1, free = {}\<rparr> \<and>
   (\<exists>R. ArrayPool_Alloc \<lparr>arr = [0::int], alloc = 1, free = {}\<rparr> = Some R \<and>
        ArrayPool_Alloc_depth 2 \<lparr>arr = [0::int], alloc = 1, free = {}\<rparr> = Some R \<and> R \<noteq> {}) \<and>
   ArrayPool_Alloc_depth 1 \<lparr>arr = [0::int], alloc = 1, free = {}\<rparr> = None \<and>
   length (arr \<lparr>arr = [0::int], alloc = 1, free = {}\<rparr>)
     < length (arr (grow \<lparr>arr = [0::int], alloc = 1, free = {}\<rparr>))"
proof -
  have n: "NewArrayPool 0 = Inr \<lparr>arr = [0::int], alloc = 1, free = {}\<rparr>"
    by (simp add: NewArrayPool_def make_slice_def)
  have r: "ArrayPool_reachable \<lparr>arr = [0::int], alloc = 1, free = {}\<rparr>"
    by (rule reach_new [OF n])
  show ?thesis
    using ArrayPool_Alloc_terminates [OF r] r by simp
qed

section \<open>Properties of the segmented list\<close>

lemma divmod_cursor:
  fixes n k Z c :: int
  assumes "n - k * Z = c" "0 \<le> c" "c < Z"
  shows "n div Z = k" "n mod Z = c"
proof -
  have n: "n = Z * k + c" using assms(1) by (simp add: algebra_simps)
  show "n div Z = k" by (rule int_div_pos_eq [OF n assms(2,3)])
  show "n mod Z = c" by (rule int_mod_pos_eq [OF n assms(2,3)])
qed

lemma ArrayList_inv_size_pos: "ArrayList_inv al \<Longrightarrow> 0 < segmentSize al"
  by (simp add: ArrayList_inv_def)

lemma shift_mask_divmod:
  assumes "ArrayList_inv al"
  shows "drop_bit (nat (segmentSizeShift al)) idx = idx div segmentSize al"
    and "idx AND segmentSizeMask al = idx mod segmentSize al"
proof -
  from assms have Z: "segmentSize al = 2 ^ nat (segmentSizeShift al)"
    and M: "segmentSizeMask al = segmentSize al - 1"
    by (simp_all add: ArrayList_inv_def)
  show "drop_bit (nat (segmentSizeShift al)) idx = idx div segmentSize al"
    by (simp add: Z drop_bit_eq_div)
  have "idx AND segmentSizeMask al = take_bit (nat (segmentSizeShift al)) idx"
    by (simp add: M Z take_bit_eq_mask mask_eq_exp_minus_1)
  then show "idx AND segmentSizeMask al = idx mod segmentSize al"
    by (simp add: Z take_bit_eq_mod)
qed

lemma slot_of_divmod:
  assumes "ArrayList_inv al"
  shows "slot_of al idx = (nat (idx div segmentSize al), nat (idx mod segmentSize al))"
  by (simp add: slot_of_def shift_mask_divmod [OF assms])

lemma div_le_cursor:
  fixes idx k Z :: int
  assumes Z: "0 < Z" and lt: "idx < (k + 1) * Z"
  shows "idx div Z \<le> k"
proof (rule ccontr)
  assume "\<not> idx div Z \<le> k"
  then have "k + 1 \<le> idx div Z" by simp
  then have "(k + 1) * Z \<le> (idx div Z) * Z"
    using Z by (intro mult_right_mono) simp_all
  moreover have "0 \<le> idx mod Z" using Z by simp
  moreover have "(idx div Z) * Z + idx mod Z = idx" by simp
  ultimately show False using lt by linarith
qed

lemma ArrayList_invD:
  assumes "ArrayList_inv al"
  shows "0 \<le> segmentSizeShift al"
    and "segmentSize al = 2 ^ nat (segmentSizeShift al)"
    and "segmentSizeMask al = segmentSize al - 1"
    and "segments al = [] \<Longrightarrow> count al = 0 \<and> segmentIdx al = 0"
    and "segments al \<noteq> [] \<Longrightarrow> in_range (segmentIdx al) (segments al)"
    and "segments al \<noteq> [] \<Longrightarrow> int (length (segments al)) \<le> segmentIdx al + 2"
    and "segments al \<noteq> [] \<Longrightarrow>
           (if segmentIdx al = 0 then 0 else 1) \<le> count al - segmentIdx al * segmentSize al"
    and "segments al \<noteq> [] \<Longrightarrow> count al - segmentIdx al * segmentSize al \<le> segmentSize al"
    and "i < length (segments al) \<Longrightarrow>
           length (seg_arr (segments al ! i)) = nat (segmentSize al)"
    and "i < length (segments al) \<Longrightarrow>
           seg_count (segments al ! i) =
             (if int i < segmentIdx al then segmentSize al
              else if int i = segmentIdx al then count al - segmentIdx al * segmentSize al
              else 0)"
  using assms unfolding ArrayList_inv_def by (blast, blast, blast, blast, blast, blast, blast, blast, fastforce, fastforce)

lemma ArrayList_GetRef_inv:
  assumes inv: "ArrayList_inv al" and idx: "0 \<le> idx" "idx < count al"
  shows "ArrayList_GetRef al idx =
           Inr (nat (idx div segmentSize al), nat (idx mod segmentSize al))"
proof -
  let ?Z = "segmentSize al" and ?k = "segmentIdx al"
  have Z: "0 < ?Z" by (rule ArrayList_inv_size_pos [OF inv])
  have ne: "segments al \<noteq> []" using ArrayList_invD(4) [OF inv] idx by auto
  note k = ArrayList_invD(5) [OF inv ne] and c = ArrayList_invD(8) [OF inv ne]
  have "idx < (?k + 1) * ?Z" using idx c by (simp add: algebra_simps)
  from div_le_cursor [OF Z this] have s1: "idx div ?Z \<le> ?k" .
  have s0: "0 \<le> idx div ?Z" using idx Z by (simp add: pos_imp_zdiv_nonneg_iff)
  have s: "in_range (idx div ?Z) (segments al)"
    using s0 s1 k by (simp add: in_range_def)
  then have "nat (idx div ?Z) < length (segments al)"
    by (simp add: in_range_def nat_less_iff)
  from ArrayList_invD(9) [OF inv this]
  have l: "length (seg_arr (segments al ! nat (idx div ?Z))) = nat ?Z" .
  have off: "in_range (idx mod ?Z) (seg_arr (segments al ! nat (idx div ?Z)))"
    using Z by (simp add: in_range_def l)
  have sh: "\<not> segmentSizeShift al < 0" using ArrayList_invD(1) [OF inv] by simp
  show ?thesis
    using idx sh s off by (simp add: ArrayList_GetRef_def Let_def shift_mask_divmod [OF inv])
qed

lemma ArrayList_invI:
  assumes "0 \<le> segmentSizeShift al"
    and "segmentSize al = 2 ^ nat (segmentSizeShift al)"
    and "segmentSizeMask al = segmentSize al - 1"
    and "segments al = [] \<Longrightarrow> count al = 0 \<and> segmentIdx al = 0"
    and "segments al \<noteq> [] \<Longrightarrow> in_range (segmentIdx al) (segments al)"
    and "segments al \<noteq> [] \<Longrightarrow> int (length (segments al)) \<le> segmentIdx al + 2"
    and "segments al \<noteq> [] \<Longrightarrow>
           (if segmentIdx al = 0 then 0 else 1) \<le> count al - segmentIdx al * segmentSize al"
    and "segments al \<noteq> [] \<Longrightarrow> count al - segmentIdx al * segmentSize al \<le> segmentSize al"
    and "\<And>i. i < length (segments al) \<Longrightarrow>
           length (seg_arr (segments al ! i)) = nat (segmentSize al)"
    and "\<And>i. i < length (segments al) \<Longrightarrow>
           seg_count (segments al ! i) =
             (if int i < segmentIdx al then segmentSize al
              else if int i = segmentIdx al then count al - segmentIdx al * segmentSize al
              else 0)"
  shows "ArrayList_inv al"
  unfolding ArrayList_inv_def using assms by blast

lemma seg_arr_update_count:
  "j < length xs \<Longrightarrow> seg_arr (xs[j := (xs ! j)\<lparr>seg_count := c\<rparr>] ! i) = seg_arr (xs ! i)"
  by (cases "i = j") simp_all

lemma seg_count_update_count:
  "j < length xs \<Longrightarrow>
     seg_count (xs[j := (xs ! j)\<lparr>seg_count := c\<rparr>] ! i) = (if i = j then c else seg_count (xs ! i))"
  by (cases "i = j") simp_all

lemma ArrayList_Alloc_inv:
  assumes inv: "ArrayList_inv al"
  shows "\<exists>al'. ArrayList_Alloc al =
            Inr ((nat (count al div segmentSize al), nat (count al mod segmentSize al)), al') \<and>
          ArrayList_inv al' \<and> count al' = count al + 1 \<and>
          segmentSize al' = segmentSize al \<and> defaultValue al' = defaultValue al"
proof -
  let ?Z = "segmentSize al" and ?k = "segmentIdx al"
  have Z: "0 < ?Z" by (rule ArrayList_inv_size_pos [OF inv])
  note st = ArrayList_invD(1-3) [OF inv]
  show ?thesis
  proof (cases "segments al = []")
    case True
    with ArrayList_invD(4) [OF inv] have c0: "count al = 0" "?k = 0" by simp_all
    let ?al' = "al\<lparr>segments := [\<lparr>seg_arr = replicate (nat ?Z) 0, seg_count = 1\<rparr>],
                     count := 1\<rparr>"
    have "ArrayList_Alloc al = Inr ((0, 0), ?al')"
      using True c0 Z
      by (simp add: ArrayList_Alloc_def append_segment_def make_slice_def in_range_def Let_def)
    moreover have "ArrayList_inv ?al'"
      by (rule ArrayList_invI) (use st c0 Z in \<open>simp_all add: in_range_def\<close>)
    ultimately show ?thesis using c0 by simp
  next
    case ne: False
    note k = ArrayList_invD(5) [OF inv ne] and l2 = ArrayList_invD(6) [OF inv ne]
      and clo = ArrayList_invD(7) [OF inv ne] and chi = ArrayList_invD(8) [OF inv ne]
    have kn: "nat ?k < length (segments al)" "0 \<le> ?k"
      using k by (simp_all add: in_range_def nat_less_iff)
    have ck: "seg_count (segments al ! nat ?k) = count al - ?k * ?Z"
      using ArrayList_invD(10) [OF inv kn(1)] kn(2) by simp
    have lk: "length (seg_arr (segments al ! nat ?k)) = nat ?Z"
      by (rule ArrayList_invD(9) [OF inv kn(1)])
    show ?thesis
    proof (cases "count al - ?k * ?Z = ?Z")
      case full: True
      then have cnt: "count al = (?k + 1) * ?Z" by (simp add: algebra_simps)
      have dm: "count al div ?Z = ?k + 1" "count al mod ?Z = 0"
        using Z by (simp_all add: cnt)
      show ?thesis
      proof (cases "?k = int (length (segments al)) - 1")
        case last: True
        have len: "int (length (segments al)) = ?k + 1" using last by simp
        let ?al' = "al\<lparr>segments := segments al @ [\<lparr>seg_arr = replicate (nat ?Z) 0, seg_count = 1\<rparr>],
                     segmentIdx := ?k + 1, count := count al + 1\<rparr>"
        have "ArrayList_Alloc al = Inr ((nat (?k + 1), 0), ?al')"
          using ne k kn ck full last Z
          by (simp add: ArrayList_Alloc_def append_segment_def make_slice_def in_range_def Let_def
                nth_append)
        moreover have "ArrayList_inv ?al'"
        proof (rule ArrayList_invI)
          fix i assume "i < length (segments ?al')"
          then have i: "i < length (segments al) \<or> i = length (segments al)" by auto
          show "length (seg_arr (segments ?al' ! i)) = nat (segmentSize ?al')"
            using i ArrayList_invD(9) [OF inv, of i] by (auto simp: nth_append)
          show "seg_count (segments ?al' ! i) =
             (if int i < segmentIdx ?al' then segmentSize ?al'
              else if int i = segmentIdx ?al'
                   then count ?al' - segmentIdx ?al' * segmentSize ?al' else 0)"
          proof (cases "i < length (segments al)")
            case True
            then have "int i < ?k + 1" using len by simp
            with True ArrayList_invD(10) [OF inv True] full show ?thesis
              by (auto simp: nth_append)
          next
            case False
            with i have "i = length (segments al)" by simp
            then show ?thesis by (simp add: nth_append len cnt algebra_simps)
          qed
        qed (use st kn last Z in \<open>simp_all add: in_range_def cnt\<close>)
        ultimately show ?thesis using dm by simp
      next
        case spare: False
        then have k2: "?k + 2 = int (length (segments al))" using l2 k by (simp add: in_range_def)
        obtain kk where kk: "?k = int kk" using kn(2) by (rule nonneg_int_cases)
        have len: "length (segments al) = Suc (Suc kk)" using k2 kk by simp
        have nk1: "nat (?k + 1) = Suc kk" "nat (1 + int kk) = Suc kk" "nat (int kk + 1) = Suc kk"
          using kk by simp_all
        have k1: "Suc kk < length (segments al)" using len by simp
        let ?al' = "al\<lparr>segments := (segments al)
                         [nat (?k + 1) := (segments al ! nat (?k + 1))\<lparr>seg_count := 1\<rparr>],
                     segmentIdx := ?k + 1, count := count al + 1\<rparr>"
        have c1: "seg_count (segments al ! Suc kk) = 0"
          using ArrayList_invD(10) [OF inv k1] kk by simp
        have l1: "length (seg_arr (segments al ! Suc kk)) = nat ?Z"
          by (rule ArrayList_invD(9) [OF inv k1])
        have "ArrayList_Alloc al = Inr ((nat (?k + 1), 0), ?al')"
          using ne k kn ck full spare Z k1 c1 l1
          by (simp add: ArrayList_Alloc_def in_range_def Let_def nk1)
        moreover have "ArrayList_inv ?al'"
        proof (rule ArrayList_invI)
          fix i assume "i < length (segments ?al')"
          then have i: "i < length (segments al)" by simp
          show "length (seg_arr (segments ?al' ! i)) = nat (segmentSize ?al')"
            using i k1 l1 ArrayList_invD(9) [OF inv i] by (simp add: nth_list_update nk1)
          show "seg_count (segments ?al' ! i) =
             (if int i < segmentIdx ?al' then segmentSize ?al'
              else if int i = segmentIdx ?al'
                   then count ?al' - segmentIdx ?al' * segmentSize ?al' else 0)"
          proof (cases "i = Suc kk")
            case True
            then show ?thesis using k1 by (simp add: nk1 kk cnt algebra_simps)
          next
            case False
            with i len have "i \<le> kk" by simp
            with False ArrayList_invD(10) [OF inv i] full k1 show ?thesis
              by (auto simp: nth_list_update nk1 kk)
          qed
        qed (use st kn k2 Z in \<open>simp_all add: in_range_def cnt\<close>)
        ultimately show ?thesis using dm by simp
      qed
    next
      case room: False
      let ?c = "count al - ?k * ?Z"
      have c: "0 \<le> ?c" "?c < ?Z" using clo chi room by (simp_all split: if_splits)
      have dm: "count al div ?Z = ?k" "count al mod ?Z = ?c"
        using divmod_cursor [of "count al" ?k ?Z ?c] c by simp_all
      let ?al' = "al\<lparr>segments := (segments al)
                         [nat ?k := (segments al ! nat ?k)\<lparr>seg_count := ?c + 1\<rparr>],
                     count := count al + 1\<rparr>"
      have "ArrayList_Alloc al = Inr ((nat ?k, nat ?c), ?al')"
        using ne k kn ck room Z c lk
        by (simp add: ArrayList_Alloc_def in_range_def Let_def)
      moreover have "ArrayList_inv ?al'"
      proof (rule ArrayList_invI)
        fix i assume "i < length (segments ?al')"
        then have i: "i < length (segments al)" by simp
        show "length (seg_arr (segments ?al' ! i)) = nat (segmentSize ?al')"
          using kn(1) ArrayList_invD(9) [OF inv i] by (simp add: seg_arr_update_count)
        show "seg_count (segments ?al' ! i) =
           (if int i < segmentIdx ?al' then segmentSize ?al'
            else if int i = segmentIdx ?al'
                 then count ?al' - segmentIdx ?al' * segmentSize ?al' else 0)"
          using ArrayList_invD(10) [OF inv i] kn
          by (auto simp: seg_count_update_count algebra_simps)
      qed (use st kn k l2 c Z ne in \<open>auto simp: in_range_def\<close>)
      ultimately show ?thesis using dm by simp
    qed
  qed
qed

lemma ArrayList_RemoveLast_inv:
  assumes inv: "ArrayList_inv al"
  shows "\<exists>al'. ArrayList_RemoveLast al = Inr al' \<and> ArrayList_inv al' \<and>
           count al' = (if count al \<le> 0 then count al else count al - 1)"
proof (cases "count al \<le> 0")
  case True
  then show ?thesis using inv by (simp add: ArrayList_RemoveLast_def)
next
  case pos: False
  let ?Z = "segmentSize al" and ?k = "segmentIdx al"
  have Z: "0 < ?Z" by (rule ArrayList_inv_size_pos [OF inv])
  note st = ArrayList_invD(1-3) [OF inv]
  have ne: "segments al \<noteq> []" using ArrayList_invD(4) [OF inv] pos by auto
  note k = ArrayList_invD(5) [OF inv ne] and l2 = ArrayList_invD(6) [OF inv ne]
    and clo = ArrayList_invD(7) [OF inv ne] and chi = ArrayList_invD(8) [OF inv ne]
  obtain kk where kk: "?k = int kk" using k by (auto simp: in_range_def intro: nonneg_int_cases)
  have kn: "kk < length (segments al)" using k kk by (simp add: in_range_def)
  have ck: "seg_count (segments al ! kk) = count al - ?k * ?Z"
    using ArrayList_invD(10) [OF inv kn] kk by simp
  let ?c = "count al - ?k * ?Z"
  have c1: "1 \<le> ?c" using clo pos kk by (cases "kk = 0") simp_all
  let ?al1 = "al\<lparr>segments := (segments al)[kk := (segments al ! kk)\<lparr>seg_count := ?c - 1\<rparr>],
                 count := count al - 1\<rparr>"
  show ?thesis
  proof (cases "?c - 1 > 0")
    case True
    have "ArrayList_RemoveLast al = Inr ?al1"
      using pos k kk ck True by (simp add: ArrayList_RemoveLast_def Let_def)
    moreover have "ArrayList_inv ?al1"
    proof (rule ArrayList_invI)
      fix i assume "i < length (segments ?al1)"
      then have i: "i < length (segments al)" by simp
      show "length (seg_arr (segments ?al1 ! i)) = nat (segmentSize ?al1)"
        using kn ArrayList_invD(9) [OF inv i] by (simp add: seg_arr_update_count)
      show "seg_count (segments ?al1 ! i) =
           (if int i < segmentIdx ?al1 then segmentSize ?al1
            else if int i = segmentIdx ?al1
                 then count ?al1 - segmentIdx ?al1 * segmentSize ?al1 else 0)"
        using ArrayList_invD(10) [OF inv i] kn kk
        by (auto simp: seg_count_update_count algebra_simps)
    qed (use st kn k l2 True chi Z ne in \<open>auto simp: in_range_def\<close>)
    ultimately show ?thesis using pos by simp
  next
    case False
    with c1 have c: "?c = 1" by simp
    then have cnt: "count al = ?k * ?Z + 1" by simp
    let ?k' = "if ?k > 0 then ?k - 1 else ?k"
    let ?al2 = "?al1\<lparr>segmentIdx := ?k'\<rparr>"
    let ?al3 = "?al2\<lparr>segments := take (Suc kk) (segments ?al2)\<rparr>"
    have r: "ArrayList_RemoveLast al = Inr ?al3"
    proof (cases "int (length (segments al)) - 1 = ?k")
      case True
      then have "take (Suc kk) (segments ?al2) = segments ?al2" using kk by simp
      then have "?al3 = ?al2" by simp
      moreover have "ArrayList_RemoveLast al = Inr ?al2"
        using pos k kk ck c True
        by (cases al) (auto simp: ArrayList_RemoveLast_def Let_def in_range_def)
      ultimately show ?thesis by simp
    next
      case False
      then have len: "length (segments al) = Suc (Suc kk)" using l2 kn kk by simp
      have nk1: "nat (int kk + 1) = Suc kk" "nat (1 + int kk) = Suc kk" by simp_all
      show ?thesis
        using pos k kk ck c False len
        by (cases al) (auto simp: ArrayList_RemoveLast_def Let_def in_range_def nk1)
    qed
    have seg3: "segments ?al3 =
        take (Suc kk) ((segments al)[kk := (segments al ! kk)\<lparr>seg_count := 0\<rparr>])"
      using c by simp
    have len3: "length (segments ?al3) = Suc kk" using kn by simp
    have "ArrayList_inv ?al3"
    proof (rule ArrayList_invI)
      fix i assume "i < length (segments ?al3)"
      then have i: "i < Suc kk" "i < length (segments al)" using kn by simp_all
      show "length (seg_arr (segments ?al3 ! i)) = nat (segmentSize ?al3)"
        using i kn ArrayList_invD(9) [OF inv i(2)] by (simp add: seg_arr_update_count)
      show "seg_count (segments ?al3 ! i) =
           (if int i < segmentIdx ?al3 then segmentSize ?al3
            else if int i = segmentIdx ?al3
                 then count ?al3 - segmentIdx ?al3 * segmentSize ?al3 else 0)"
      proof (cases "i = kk")
        case True
        then show ?thesis using kn i kk cnt
          by (auto simp: seg_count_update_count algebra_simps)
      next
        case False
        with i have lt: "i < kk" by simp
        then have "seg_count (segments al ! i) = ?Z"
          using ArrayList_invD(10) [OF inv i(2)] kk by simp
        with lt False kn i show ?thesis
          by (auto simp: seg_count_update_count kk cnt algebra_simps)
      qed
    next
      show "segments ?al3 \<noteq> [] \<Longrightarrow> in_range (segmentIdx ?al3) (segments ?al3)"
        using kn kk by (auto simp: in_range_def)
      show "segments ?al3 \<noteq> [] \<Longrightarrow> int (length (segments ?al3)) \<le> segmentIdx ?al3 + 2"
        using kn kk by auto
      show "segments ?al3 \<noteq> [] \<Longrightarrow> (if segmentIdx ?al3 = 0 then 0 else 1)
           \<le> count ?al3 - segmentIdx ?al3 * segmentSize ?al3"
        using kk cnt Z by (auto simp: algebra_simps)
      show "segments ?al3 \<noteq> [] \<Longrightarrow>
           count ?al3 - segmentIdx ?al3 * segmentSize ?al3 \<le> segmentSize ?al3"
        using kk cnt Z by (auto simp: algebra_simps)
      show "segments ?al3 = [] \<Longrightarrow> count ?al3 = 0 \<and> segmentIdx ?al3 = 0"
        using kn by simp
    qed (use st in simp_all)
    with r show ?thesis using pos by simp
  qed
qed

lemma length_seg_arr_store:
  "length (seg_arr (xs[j := (xs ! j)\<lparr>seg_arr := (seg_arr (xs ! j))[n := v]\<rparr>] ! i))
     = length (seg_arr (xs ! i))"
proof (cases "j < length xs")
  case True
  then show ?thesis by (cases "i = j") simp_all
next
  case False
  then show ?thesis by (simp add: list_update_beyond)
qed

lemma seg_count_store:
  "seg_count (xs[j := (xs ! j)\<lparr>seg_arr := (seg_arr (xs ! j))[n := v]\<rparr>] ! i)
     = seg_count (xs ! i)"
proof (cases "j < length xs")
  case True
  then show ?thesis by (cases "i = j") simp_all
next
  case False
  then show ?thesis by (simp add: list_update_beyond)
qed

lemma ArrayList_store_fields [simp]:
  "count (ArrayList_store al r v) = count al"
  "segmentIdx (ArrayList_store al r v) = segmentIdx al"
  "segmentSize (ArrayList_store al r v) = segmentSize al"
  "segmentSizeMask (ArrayList_store al r v) = segmentSizeMask al"
  "segmentSizeShift (ArrayList_store al r v) = segmentSizeShift al"
  "defaultValue (ArrayList_store al r v) = defaultValue al"
  "length (segments (ArrayList_store al r v)) = length (segments al)"
  by (simp_all add: ArrayList_store_def)

lemma ArrayList_store_inv:
  assumes inv: "ArrayList_inv al"
  shows "ArrayList_inv (ArrayList_store al r v)"
proof (rule ArrayList_invI)
  fix i assume "i < length (segments (ArrayList_store al r v))"
  then have i: "i < length (segments al)" by simp
  show "length (seg_arr (segments (ArrayList_store al r v) ! i))
          = nat (segmentSize (ArrayList_store al r v))"
    using ArrayList_invD(9) [OF inv i]
    by (simp add: ArrayList_store_def length_seg_arr_store)
  show "seg_count (segments (ArrayList_store al r v) ! i) =
         (if int i < segmentIdx (ArrayList_store al r v) then segmentSize (ArrayList_store al r v)
          else if int i = segmentIdx (ArrayList_store al r v)
               then count (ArrayList_store al r v)
                    - segmentIdx (ArrayList_store al r v) * segmentSize (ArrayList_store al r v)
               else 0)"
    using ArrayList_invD(10) [OF inv i]
    by (simp add: ArrayList_store_def seg_count_store)
next
  have e: "segments (ArrayList_store al r v) = [] \<longleftrightarrow> segments al = []"
    using ArrayList_store_fields(7) [of al r v] by (simp only: length_0_conv [symmetric])
  show "segments (ArrayList_store al r v) = [] \<Longrightarrow>
          count (ArrayList_store al r v) = 0 \<and> segmentIdx (ArrayList_store al r v) = 0"
    using ArrayList_invD(4) [OF inv] e by simp
  show "segments (ArrayList_store al r v) \<noteq> [] \<Longrightarrow>
          in_range (segmentIdx (ArrayList_store al r v)) (segments (ArrayList_store al r v))"
    using ArrayList_invD(5) [OF inv] e by (simp add: in_range_def)
  show "segments (ArrayList_store al r v) \<noteq> [] \<Longrightarrow>
          int (length (segments (ArrayList_store al r v)))
            \<le> segmentIdx (ArrayList_store al r v) + 2"
    using ArrayList_invD(6) [OF inv] e by simp
  show "segments (ArrayList_store al r v) \<noteq> [] \<Longrightarrow>
          (if segmentIdx (ArrayList_store al r v) = 0 then 0 else 1)
          \<le> count (ArrayList_store al r v)
            - segmentIdx (ArrayList_store al r v) * segmentSize (ArrayList_store al r v)"
    using ArrayList_invD(7) [OF inv] e by simp
  show "segments (ArrayList_store al r v) \<noteq> [] \<Longrightarrow>
          count (ArrayList_store al r v)
            - segmentIdx (ArrayList_store al r v) * segmentSize (ArrayList_store al r v)
          \<le> segmentSize (ArrayList_store al r v)"
    using ArrayList_invD(8) [OF inv] e by simp
qed (use ArrayList_invD(1-3) [OF inv] in simp_all)

lemma ArrayList_load_store:
  assumes "fst r < length (segments al)" "snd r < length (seg_arr (segments al ! fst r))"
  shows "ArrayList_load (ArrayList_store al r v) r = v"
  using assms by (simp add: ArrayList_load_def ArrayList_store_def)

lemma ArrayList_GetRef_valid:
  assumes inv: "ArrayList_inv al" and r: "ArrayList_GetRef al idx = Inr r"
  shows "fst r < length (segments al)" "snd r < length (seg_arr (segments al ! fst r))"
  using r
  by (auto simp: ArrayList_GetRef_def Let_def in_range_def nat_less_iff split: if_splits)

lemma ArrayList_Get_store:
  assumes inv: "ArrayList_inv al" and idx: "0 \<le> idx" "idx < count al"
    and r: "ArrayList_GetRef al idx = Inr r"
  shows "ArrayList_Get (ArrayList_store al r v) idx = Inr v"
proof -
  have "ArrayList_GetRef (ArrayList_store al r v) idx = ArrayList_GetRef al idx"
    using ArrayList_GetRef_inv [OF inv idx]
      ArrayList_GetRef_inv [OF ArrayList_store_inv [OF inv, of r v], of idx] idx
    by simp
  then show ?thesis
    using r ArrayList_load_store [OF ArrayList_GetRef_valid [OF inv r]]
    by (simp add: ArrayList_Get_def)
qed

section \<open>Properties of the segmented pool\<close>

lemma Pool_invD:
  assumes "Pool_inv p"
  shows "ArrayList_inv (items p)" "finite (frees p)"
    and "i \<in> frees p \<Longrightarrow> 0 \<le> i \<and> i < count (items p)"
  using assms unfolding Pool_inv_def by blast+

lemma Pool_Alloc_free:
  assumes inv: "Pool_inv p" and ne: "frees p \<noteq> {}"
  shows "Pool_Alloc p = (\<lambda>k. Inr (k, slot_of (items p) k, p\<lparr>frees := frees p - {k}\<rparr>)) ` frees p"
proof -
  have "\<And>k. k \<in> frees p \<Longrightarrow> ArrayList_GetRef (items p) k = Inr (slot_of (items p) k)"
    using Pool_invD(3) [OF inv] ArrayList_GetRef_inv [OF Pool_invD(1) [OF inv]]
    by (simp add: slot_of_divmod [OF Pool_invD(1) [OF inv]])
  then show ?thesis using ne by (simp add: Pool_Alloc_def cong: image_cong)
qed

lemma Pool_Alloc_fresh:
  assumes inv: "Pool_inv p" and e: "frees p = {}"
  shows "\<exists>al'. Pool_Alloc p =
            {Inr (count (items p), slot_of (items p) (count (items p)), p\<lparr>items := al'\<rparr>)} \<and>
          ArrayList_Alloc (items p) = Inr (slot_of (items p) (count (items p)), al') \<and>
          ArrayList_inv al' \<and> count al' = count (items p) + 1 \<and>
          segmentSize al' = segmentSize (items p) \<and> defaultValue al' = defaultValue (items p)"
proof -
  from ArrayList_Alloc_inv [OF Pool_invD(1) [OF inv]] obtain al' where
    a: "ArrayList_Alloc (items p) = Inr (slot_of (items p) (count (items p)), al')"
    and r: "ArrayList_inv al'" "count al' = count (items p) + 1"
       "segmentSize al' = segmentSize (items p)" "defaultValue al' = defaultValue (items p)"
    unfolding slot_of_divmod [OF Pool_invD(1) [OF inv]] by blast
  have "Pool_Alloc p =
      {Inr (count (items p), slot_of (items p) (count (items p)), p\<lparr>items := al'\<rparr>)}"
    using e a by (simp add: Pool_Alloc_def ArrayList_Count_def)
  with a r show ?thesis by blast
qed

lemma count_nonneg:
  assumes inv: "ArrayList_inv al"
  shows "0 \<le> count al"
proof (cases "segments al = []")
  case True
  then show ?thesis using ArrayList_invD(4) [OF inv] by simp
next
  case False
  have Z: "0 < segmentSize al" by (rule ArrayList_inv_size_pos [OF inv])
  have k: "0 \<le> segmentIdx al" using ArrayList_invD(5) [OF inv False] by (simp add: in_range_def)
  have "0 \<le> count al - segmentIdx al * segmentSize al"
    using ArrayList_invD(7) [OF inv False] by (simp split: if_splits)
  moreover have "0 \<le> segmentIdx al * segmentSize al" using Z k by simp
  ultimately show ?thesis by linarith
qed

lemma Pool_Alloc_inv:
  assumes inv: "Pool_inv p" and x: "x \<in> Pool_Alloc p"
  shows "\<exists>k r p'. x = Inr (k, r, p') \<and> Pool_inv p' \<and>
           Pool_Count p' = Pool_Count p + 1 \<and>
           ArrayList_GetRef (items p') k = Inr r \<and>
           (frees p \<noteq> {} \<longrightarrow> k \<in> frees p \<and> frees p' = frees p - {k} \<and> items p' = items p) \<and>
           (frees p = {} \<longrightarrow> k = count (items p) \<and> frees p' = {} \<and>
               count (items p') = count (items p) + 1)"
proof (cases "frees p = {}")
  case True
  from Pool_Alloc_fresh [OF inv True] obtain al' where
    a: "Pool_Alloc p =
            {Inr (count (items p), slot_of (items p) (count (items p)), p\<lparr>items := al'\<rparr>)}"
    and r: "ArrayList_inv al'" "count al' = count (items p) + 1"
       "segmentSize al' = segmentSize (items p)"
    by blast
  let ?p' = "p\<lparr>items := al'\<rparr>"
  let ?k = "count (items p)"
  have x': "x = Inr (?k, slot_of (items p) ?k, ?p')"
    using a x by simp
  have 1: "Pool_inv ?p'" using r(1) True by (simp add: Pool_inv_def)
  have 2: "Pool_Count ?p' = Pool_Count p + 1"
    using r(2) by (simp add: Pool_Count_def ArrayList_Count_def)
  have "ArrayList_GetRef al' ?k = Inr (nat (?k div segmentSize al'), nat (?k mod segmentSize al'))"
    by (rule ArrayList_GetRef_inv [OF r(1)])
       (use r(2) count_nonneg [OF Pool_invD(1) [OF inv]] in simp_all)
  then have 3: "ArrayList_GetRef (items ?p') ?k = Inr (slot_of (items p) ?k)"
    by (simp add: slot_of_divmod [OF Pool_invD(1) [OF inv]] r(3))
  have 4: "frees ?p' = {}" "count (items ?p') = ?k + 1" using True r(2) by simp_all
  show ?thesis
    by (rule exI [of _ ?k], rule exI [of _ "slot_of (items p) ?k"], rule exI [of _ ?p'])
       (use x' 1 2 3 4 True in blast)
next
  case False
  have "x \<in> (\<lambda>k. Inr (k, slot_of (items p) k, p\<lparr>frees := frees p - {k}\<rparr>)) ` frees p"
    using x Pool_Alloc_free [OF inv False] by simp
  then obtain k where
    k: "k \<in> frees p" and x': "x = Inr (k, slot_of (items p) k, p\<lparr>frees := frees p - {k}\<rparr>)"
    by (rule imageE)
  let ?p' = "p\<lparr>frees := frees p - {k}\<rparr>"
  have 1: "Pool_inv ?p'" using inv by (simp add: Pool_inv_def)
  have "0 < card (frees p)"
    using k Pool_invD(2) [OF inv] by (auto simp: card_gt_0_iff)
  moreover have "card (frees p - {k}) = card (frees p) - 1"
    using k by (rule card_Diff_singleton)
  ultimately have "int (card (frees p - {k})) = int (card (frees p)) - 1"
    by linarith
  then have 2: "Pool_Count ?p' = Pool_Count p + 1"
    by (simp add: Pool_Count_def ArrayList_Count_def)
  have "ArrayList_GetRef (items p) k = Inr (slot_of (items p) k)"
    using ArrayList_GetRef_inv [OF Pool_invD(1) [OF inv]] Pool_invD(3) [OF inv k]
    by (simp add: slot_of_divmod [OF Pool_invD(1) [OF inv]])
  then have 3: "ArrayList_GetRef (items ?p') k = Inr (slot_of (items p) k)" by simp
  have 4: "frees ?p' = frees p - {k}" "items ?p' = items p" by simp_all
  show ?thesis
    by (rule exI [of _ k], rule exI [of _ "slot_of (items p) k"], rule exI [of _ ?p'])
       (use x' 1 2 3 4 False k in blast)
qed

lemma Pool_Free_live:
  assumes inv: "Pool_inv p" and i: "0 \<le> i" "i < count (items p)" "i \<notin> frees p"
  shows "\<exists>p'. Pool_Free p i = Inr p' \<and> Pool_inv p' \<and> frees p' = insert i (frees p) \<and>
           count (items p') = count (items p) \<and>
           defaultValue (items p') = defaultValue (items p) \<and>
           ArrayList_Get (items p') i = Inr (defaultValue (items p))"
proof -
  note ai = Pool_invD(1) [OF inv]
  let ?r = "slot_of (items p) i"
  have g: "ArrayList_GetRef (items p) i = Inr ?r"
    using ArrayList_GetRef_inv [OF ai i(1,2)] by (simp add: slot_of_divmod [OF Pool_invD(1) [OF inv]])
  let ?p' = "p\<lparr>items := ArrayList_store (items p) ?r (defaultValue (items p)),
               frees := insert i (frees p)\<rparr>"
  have "Pool_Free p i = Inr ?p'"
    using i g by (simp add: Pool_Free_def ArrayList_Count_def)
  moreover have "Pool_inv ?p'"
    using inv i ArrayList_store_inv [OF ai] by (auto simp: Pool_inv_def)
  moreover have "ArrayList_Get (items ?p') i = Inr (defaultValue (items p))"
    using ArrayList_Get_store [OF ai i(1,2) g] by simp
  ultimately show ?thesis by simp
qed

lemma Pool_Free_inv:
  assumes inv: "Pool_inv p"
  shows "\<exists>p'. Pool_Free p i = Inr p' \<and> Pool_inv p' \<and>
           count (items p') = count (items p) \<and>
           frees p' = (if 0 \<le> i \<and> i < count (items p) then insert i (frees p) else frees p)"
proof (cases "0 \<le> i \<and> i < count (items p) \<and> i \<notin> frees p")
  case True
  with Pool_Free_live [OF inv, of i] show ?thesis by auto
next
  case False
  then have "Pool_Free p i = Inr p"
    by (auto simp: Pool_Free_def ArrayList_Count_def)
  with inv False show ?thesis by (auto simp: insert_absorb)
qed

text \<open>Allocating from a pool without free indices yields the next tail indices in order.\<close>

lemma Pool_allocs_fresh:
  assumes "Pool_allocs p ks p1" "Pool_inv p" "frees p = {}"
  shows "ks = map (\<lambda>j. count (items p) + int j) [0..<length ks] \<and> Pool_inv p1 \<and>
         frees p1 = {} \<and> count (items p1) = count (items p) + int (length ks)"
  using assms
proof (induction rule: Pool_allocs.induct)
  case (Pool_allocs_Nil p)
  then show ?case by simp
next
  case (Pool_allocs_Cons k r p' p ks p'')
  from Pool_Alloc_inv [OF Pool_allocs_Cons.prems(1) Pool_allocs_Cons.hyps(1)]
    Pool_allocs_Cons.prems(2)
  have p': "Pool_inv p'" "k = count (items p)" "frees p' = {}"
    "count (items p') = count (items p) + 1"
    by auto
  from Pool_allocs_Cons.IH [OF p'(1,3)]
  have ih: "ks = map (\<lambda>j. count (items p') + int j) [0..<length ks]" "Pool_inv p''"
    "frees p'' = {}" "count (items p'') = count (items p') + int (length ks)"
    by simp_all
  have "map (\<lambda>j. count (items p) + int j) [0..<length (k # ks)]
      = count (items p) # map (\<lambda>j. count (items p) + int (Suc j)) [0..<length ks]"
    by (simp add: upt_rec [of 0] map_Suc_upt [symmetric] del: upt_Suc)
  also have "\<dots> = k # map (\<lambda>j. count (items p') + int j) [0..<length ks]"
    using p'(2,4) by (simp add: algebra_simps)
  also have "\<dots> = k # ks" using ih(1) by simp
  finally show ?case using ih p'(4) by simp
qed

lemma Pool_Free_all_inv:
  assumes "Pool_inv p" "\<forall>i \<in> set fs. 0 \<le> i \<and> i < count (items p)"
  shows "\<exists>p'. Pool_Free_all p fs = Inr p' \<and> Pool_inv p' \<and>
           frees p' = frees p \<union> set fs \<and> count (items p') = count (items p)"
  using assms
proof (induction fs arbitrary: p)
  case Nil
  then show ?case by simp
next
  case (Cons i fs)
  from Pool_Free_inv [OF Cons.prems(1), of i] Cons.prems(2) obtain p1 where
    p1: "Pool_Free p i = Inr p1" "Pool_inv p1" "count (items p1) = count (items p)"
      "frees p1 = insert i (frees p)"
    by auto
  from Cons.IH [OF p1(2)] Cons.prems(2) p1(3) obtain p' where
    "Pool_Free_all p1 fs = Inr p'" "Pool_inv p'" "frees p' = frees p1 \<union> set fs"
    "count (items p') = count (items p1)"
    by auto
  with p1 show ?case by simp
qed

text \<open>Allocating while the free set lasts takes distinct members of it.\<close>

lemma Pool_allocs_reuse:
  assumes "Pool_allocs p ks p1" "Pool_inv p" "length ks \<le> card (frees p)"
  shows "distinct ks \<and> set ks \<subseteq> frees p \<and> frees p1 = frees p - set ks"
  using assms
proof (induction rule: Pool_allocs.induct)
  case (Pool_allocs_Nil p)
  then show ?case by simp
next
  case (Pool_allocs_Cons k r p' p ks p'')
  have ne: "frees p \<noteq> {}" using Pool_allocs_Cons.prems(2) by auto
  from Pool_Alloc_inv [OF Pool_allocs_Cons.prems(1) Pool_allocs_Cons.hyps(1)] ne
  have p': "Pool_inv p'" "k \<in> frees p" "frees p' = frees p - {k}"
    by auto
  have "card (frees p') = card (frees p) - 1" using p'(2,3) by simp
  then have "length ks \<le> card (frees p')" using Pool_allocs_Cons.prems(2) by simp
  from Pool_allocs_Cons.IH [OF p'(1) this]
  have "distinct ks" "set ks \<subseteq> frees p'" "frees p'' = frees p' - set ks" by simp_all
  with p' show ?case by auto
qed

section \<open>Allocating, freeing and allocating again\<close>

lemma ArrayPool_Alloc_no_free:
  assumes inv: "ArrayPool_inv ap" and e: "free ap = {}"
    and a: "ArrayPool_Alloc ap = Some R" and m: "(k, ap') \<in> R"
  shows "k = alloc ap" "alloc ap' = alloc ap + 1" "free ap' = {}" "ArrayPool_inv ap'"
    "length (arr ap) \<le> length (arr ap')"
proof -
  have ne: "arr ap \<noteq> []" using inv by (auto simp: ArrayPool_inv_def)
  from ArrayPool_Alloc_depth_sound [OF ArrayPool_Alloc_depth_2 [OF inv]] a e
  have R: "R = (if alloc ap < int (length (arr ap)) then {(alloc ap, ap\<lparr>alloc := alloc ap + 1\<rparr>)}
           else {(alloc ap, (grow ap)\<lparr>alloc := alloc ap + 1\<rparr>)})" by simp
  show "k = alloc ap" "alloc ap' = alloc ap + 1" "free ap' = {}"
    using R m e by (auto split: if_splits)
  show "ArrayPool_inv ap'" by (rule ArrayPool_inv_alloc [OF inv a m])
  show "length (arr ap) \<le> length (arr ap')"
    using R m grow_enlarges [OF ne] by (auto split: if_splits)
qed

lemma ArrayPool_allocs_fresh:
  assumes "ArrayPool_allocs ap ks ap1" "ArrayPool_inv ap" "free ap = {}"
  shows "ks = map (\<lambda>j. alloc ap + int j) [0..<length ks] \<and> ArrayPool_inv ap1 \<and>
         free ap1 = {} \<and> alloc ap1 = alloc ap + int (length ks)"
  using assms
proof (induction rule: ArrayPool_allocs.induct)
  case (ArrayPool_allocs_Nil ap)
  then show ?case by simp
next
  case (ArrayPool_allocs_Cons ap R k ap' ks ap'')
  note s = ArrayPool_Alloc_no_free [OF ArrayPool_allocs_Cons.prems
      ArrayPool_allocs_Cons.hyps(1,2)]
  from ArrayPool_allocs_Cons.IH [OF s(4,3)]
  have ih: "ks = map (\<lambda>j. alloc ap' + int j) [0..<length ks]" "ArrayPool_inv ap''"
    "free ap'' = {}" "alloc ap'' = alloc ap' + int (length ks)"
    by simp_all
  have "map (\<lambda>j. alloc ap + int j) [0..<length (k # ks)]
      = alloc ap # map (\<lambda>j. alloc ap + int (Suc j)) [0..<length ks]"
    by (simp add: upt_rec [of 0] map_Suc_upt [symmetric] del: upt_Suc)
  also have "\<dots> = k # map (\<lambda>j. alloc ap' + int j) [0..<length ks]"
    using s(1,2) by (simp add: algebra_simps)
  also have "\<dots> = k # ks" using ih(1) by simp
  finally show ?case using ih s(2) by simp
qed

lemma ArrayPool_Free_all_rev:
  assumes "ArrayPool_inv ap" "alloc ap = a + int n" "1 \<le> a"
  shows "\<exists>ap'. ArrayPool_Free_all ap (rev (map (\<lambda>j. a + int j) [0..<n])) = Inr ap' \<and>
           ArrayPool_inv ap' \<and> alloc ap' = a \<and> free ap' = free ap"
  using assms
proof (induction n arbitrary: ap)
  case 0
  then show ?case by simp
next
  case (Suc n)
  let ?ap1 = "ap\<lparr>arr := (arr ap)[nat (a + int n) := arr ap ! 0], alloc := a + int n\<rparr>"
  have f: "ArrayPool_Free ap (a + int n) = Inr ?ap1"
    using Suc.prems by (auto simp: ArrayPool_Free_def ArrayPool_inv_def Let_def)
  have "ArrayPool_inv ?ap1" using Suc.prems by (simp add: ArrayPool_inv_def)
  from Suc.IH [OF this, of ] Suc.prems(3) obtain ap' where
    "ArrayPool_Free_all ?ap1 (rev (map (\<lambda>j. a + int j) [0..<n])) = Inr ap'"
    "ArrayPool_inv ap'" "alloc ap' = a" "free ap' = free ?ap1"
    by auto
  with f show ?case by simp
qed

lemma distinct_map_offset: "distinct (map (\<lambda>j. (c::int) + int j) [0..<n])"
  by (simp add: distinct_map inj_on_def)

text \<open>
  Claim C4 (allocate, free all, allocate again), as the code has it. Segmented pool, from
  a well-formed state with an empty free set: after any sequence of allocations, freeing
  the returned indices in any order (\<open>fs\<close> is any list with the same elements) returns,
  and every sequence of as many allocations afterwards returns the same set of indices.
  Contiguous pool, from a state that satisfies the invariant with an empty free set:
  freeing the returned indices in the reverse order of their allocation returns, and
  every sequence of as many allocations afterwards returns the same indices, in the
  same order.
\<close>

theorem reuse_round_trip:
  "(Pool_inv p \<and> frees p = {} \<and> Pool_allocs p ks p1 \<and> set fs = set ks \<longrightarrow>
      (\<exists>p2. Pool_Free_all p1 fs = Inr p2 \<and>
         (\<forall>ks' p3. Pool_allocs p2 ks' p3 \<and> length ks' = length ks \<longrightarrow> set ks' = set ks))) \<and>
   (ArrayPool_inv ap \<and> free ap = {} \<and> ArrayPool_allocs ap js ap1 \<longrightarrow>
      (\<exists>ap2. ArrayPool_Free_all ap1 (rev js) = Inr ap2 \<and>
         (\<forall>js' ap3. ArrayPool_allocs ap2 js' ap3 \<and> length js' = length js \<longrightarrow> js' = js)))"
proof (intro conjI impI)
  assume "Pool_inv p \<and> frees p = {} \<and> Pool_allocs p ks p1 \<and> set fs = set ks"
  then have inv: "Pool_inv p" and e: "frees p = {}" and run: "Pool_allocs p ks p1"
    and fs: "set fs = set ks" by simp_all
  let ?c = "count (items p)"
  from Pool_allocs_fresh [OF run inv e]
  have ks: "ks = map (\<lambda>j. ?c + int j) [0..<length ks]" and p1: "Pool_inv p1" "frees p1 = {}"
    "count (items p1) = ?c + int (length ks)" by simp_all
  have d: "distinct ks" using distinct_map_offset [of ?c "length ks"] ks by simp
  have c0: "0 \<le> ?c" by (rule count_nonneg [OF Pool_invD(1) [OF inv]])
  have "set ks = (\<lambda>j. ?c + int j) ` {0..<length ks}" using ks
    by (metis (no_types) set_map set_upt)
  then have "\<forall>i \<in> set fs. 0 \<le> i \<and> i < count (items p1)"
    using c0 p1(3) fs by auto
  from Pool_Free_all_inv [OF p1(1) this] obtain p2 where
    p2: "Pool_Free_all p1 fs = Inr p2" "Pool_inv p2" "frees p2 = set ks"
    using p1(2) fs by auto
  have "set ks' = set ks" if r: "Pool_allocs p2 ks' p3" and l: "length ks' = length ks"
    for ks' p3
  proof -
    have cf: "card (frees p2) = length ks" using p2(3) d by (simp add: distinct_card)
    from Pool_allocs_reuse [OF r p2(2)] cf l
    have "distinct ks'" "set ks' \<subseteq> frees p2" by simp_all
    moreover from this l cf have "card (set ks') = card (frees p2)"
      by (simp add: distinct_card)
    ultimately have "set ks' = frees p2"
      using Pool_invD(2) [OF p2(2)] by (simp add: card_subset_eq)
    then show ?thesis using p2(3) by simp
  qed
  with p2(1) show "\<exists>p2. Pool_Free_all p1 fs = Inr p2 \<and>
         (\<forall>ks' p3. Pool_allocs p2 ks' p3 \<and> length ks' = length ks \<longrightarrow> set ks' = set ks)"
    by blast
next
  assume "ArrayPool_inv ap \<and> free ap = {} \<and> ArrayPool_allocs ap js ap1"
  then have inv: "ArrayPool_inv ap" and e: "free ap = {}" and run: "ArrayPool_allocs ap js ap1"
    by simp_all
  let ?a = "alloc ap"
  from ArrayPool_allocs_fresh [OF run inv e]
  have js: "js = map (\<lambda>j. ?a + int j) [0..<length js]" and ap1: "ArrayPool_inv ap1"
    "free ap1 = {}" "alloc ap1 = ?a + int (length js)" by simp_all
  have a1: "1 \<le> ?a" using inv by (simp add: ArrayPool_inv_def)
  from ArrayPool_Free_all_rev [OF ap1(1,3) a1] obtain ap2 where
    ap2: "ArrayPool_Free_all ap1 (rev (map (\<lambda>j. ?a + int j) [0..<length js])) = Inr ap2"
      "ArrayPool_inv ap2" "alloc ap2 = ?a" "free ap2 = {}"
    using ap1(2) by auto
  have "js' = js" if r: "ArrayPool_allocs ap2 js' ap3" and l: "length js' = length js"
    for js' ap3
    using ArrayPool_allocs_fresh [OF r ap2(2,4)] js l ap2(3) by simp
  moreover have "ArrayPool_Free_all ap1 (rev js) = Inr ap2" using ap2(1) js by simp
  ultimately show "\<exists>ap2. ArrayPool_Free_all ap1 (rev js) = Inr ap2 \<and>
         (\<forall>js' ap3. ArrayPool_allocs ap2 js' ap3 \<and> length js' = length js \<longrightarrow> js' = js)"
    by blast
qed

section \<open>Rounding up to a power of two, and the reachable states\<close>

lemma ArrayList_inv_empty:
  "ArrayList_inv \<lparr>defaultValue = d, count = 0, segments = [], segmentIdx = 0,
      segmentSize = 2 ^ k, segmentSizeMask = 2 ^ k - 1, segmentSizeShift = int k\<rparr>"
  by (simp add: ArrayList_inv_def)

lemma filled_step:
  assumes "filled d k x"
  shows "filled (2 * d) k (x OR drop_bit d x)"
  unfolding filled_def
proof (intro conjI allI impI)
  fix i assume "bit (x OR drop_bit d x) i"
  then have "bit x i \<or> bit x (d + i)" by (simp add: bit_simps)
  then show "i \<le> k"
  proof
    assume "bit x i"
    with assms show ?thesis unfolding filled_def by blast
  next
    assume "bit x (d + i)"
    with assms have "d + i \<le> k" unfolding filled_def by blast
    then show ?thesis by simp
  qed
next
  fix i assume i: "i \<le> k \<and> k < i + 2 * d"
  show "bit (x OR drop_bit d x) i"
  proof (cases "k < i + d")
    case True
    with i assms show ?thesis by (simp add: filled_def bit_simps)
  next
    case False
    then have "d + i \<le> k \<and> k < (d + i) + d" using i by simp
    with assms have "bit x (d + i)" unfolding filled_def by blast
    then show ?thesis by (simp add: bit_simps)
  qed
qed

lemma top_bit_nat:
  fixes u :: nat
  assumes "2 ^ k \<le> u" "u < 2 ^ Suc k"
  shows "bit u k" and "bit u i \<Longrightarrow> i \<le> k"
proof -
  have "u div 2 ^ k = 1"
  proof -
    have "u div 2 ^ k < 2" using assms(2) by (simp add: less_mult_imp_div_less)
    moreover have "1 \<le> u div 2 ^ k" using assms(1) by (simp add: div_greater_zero_iff Suc_le_eq)
    ultimately show ?thesis by simp
  qed
  then show "bit u k" by (simp add: bit_iff_odd)
  show "i \<le> k" if b: "bit u i"
  proof (rule ccontr)
    assume "\<not> i \<le> k"
    then have "Suc k \<le> i" by simp
    then have "(2::nat) ^ Suc k \<le> 2 ^ i" by (rule power_increasing) simp
    with assms(2) have "u < 2 ^ i" by simp
    then have "u div 2 ^ i = 0" by simp
    with b show False by (simp add: bit_iff_odd)
  qed
qed

lemma smear_filled:
  assumes "filled 1 k m"
  shows "filled 32 k
     (let n = m OR drop_bit 1 m; n = n OR drop_bit 2 n; n = n OR drop_bit 4 n;
          n = n OR drop_bit 8 n; n = n OR drop_bit 16 n in n)"
proof -
  note s1 = filled_step [OF assms]
  have f2: "filled 2 k (m OR drop_bit 1 m)" using s1 by simp
  note s2 = filled_step [OF f2]
  have f4: "filled 4 k ((m OR drop_bit 1 m) OR drop_bit 2 (m OR drop_bit 1 m))" using s2 by simp
  note s4 = filled_step [OF f4]
  note s8 = filled_step [OF s4 [simplified]]
  note s16 = filled_step [OF s8 [simplified]]
  show ?thesis using s16 by (simp add: Let_def)
qed

lemma filled_mask:
  assumes "filled 32 k r" "k < 32"
  shows "r = mask (Suc k)"
proof (rule bit_word_eqI)
  fix i assume "i < LENGTH(64)"
  have "bit r i \<longleftrightarrow> i \<le> k"
    using assms unfolding filled_def by (metis add.commute less_le_trans trans_less_add1 not_less less_Suc_eq_le less_imp_le_nat nat_le_linear)
  then show "bit r i \<longleftrightarrow> bit (mask (Suc k) :: 64 word) i"
    using \<open>i < LENGTH(64)\<close> by (simp add: bit_simps less_Suc_eq_le)
qed

lemma NearestPowerOf2_correct:
  assumes pos: "0 < unat n" and le: "unat n \<le> 2 ^ 32"
  shows "\<exists>j\<le>32. NearestPowerOf2 n = 2 ^ j \<and> unat n \<le> 2 ^ j \<and> (\<forall>i. unat n \<le> 2 ^ i \<longrightarrow> j \<le> i)"
proof (cases "n - 1 = 0")
  case True
  then have n: "n = 1" by simp
  have "NearestPowerOf2 1 = 2 ^ 0" by (simp add: NearestPowerOf2_def Let_def)
  then show ?thesis using n by (intro exI [of _ 0]) simp
next
  case False
  let ?m = "n - 1"
  have n0: "n \<noteq> 0" using pos by (simp add: unat_gt_0)
  have um: "unat ?m = unat n - 1" by (rule unat_minus_one [OF n0])
  have "1 \<le> unat ?m" using False by (simp add: Suc_le_eq unat_gt_0)
  from ex_power_ivl1 [OF _ this, of 2] obtain k where
    k: "2 ^ k \<le> unat ?m" "unat ?m < 2 ^ Suc k" by auto
  have lt: "(2::nat) ^ k < 2 ^ 32" using k(1) um le pos by simp
  have k32: "k < 32" by (rule power_less_imp_less_exp [OF _ lt]) simp
  have "filled 1 k ?m"
    unfolding filled_def
  proof (intro conjI allI impI)
    fix i assume "bit ?m i"
    then have "bit (unat ?m) i" by (simp add: bit_simps)
    then show "i \<le> k" by (rule top_bit_nat(2) [OF k])
  next
    fix i assume "i \<le> k \<and> k < i + 1"
    then have "i = k" by simp
    moreover have "bit (unat ?m) k" by (rule top_bit_nat(1) [OF k])
    ultimately show "bit ?m i" by (simp add: bit_simps)
  qed
  from filled_mask [OF smear_filled [OF this] k32]
  have "NearestPowerOf2 n = mask (Suc k) + 1"
    by (simp add: NearestPowerOf2_def Let_def)
  then have r: "NearestPowerOf2 n = 2 ^ Suc k" by (simp add: mask_eq_exp_minus_1)
  have 1: "unat n \<le> 2 ^ Suc k" using k(2) um pos by simp
  have 2: "Suc k \<le> i" if "unat n \<le> 2 ^ i" for i
  proof -
    have "(2::nat) ^ k < 2 ^ i" using k(1) um pos that by linarith
    then have "k < i" by (rule power_less_imp_less_exp [rotated]) simp
    then show ?thesis by simp
  qed
  show ?thesis using r 1 2 k32 by (intro exI [of _ "Suc k"]) simp
qed

lemma TrailingZeros_exp:
  assumes "j < 64"
  shows "TrailingZeros (2 ^ j) = int j"
proof -
  have b: "bit ((2::64 word) ^ j) i \<longleftrightarrow> i = j" for i
    using assms by (auto simp: bit_simps)
  have "[0..<64] = [0..<j] @ j # [Suc j..<64]"
    using assms by (metis le_add2 less_imp_add_positive upt_add_eq_append upt_conv_Cons zero_le add.commute less_or_eq_imp_le)
  then have "takeWhile (\<lambda>i. \<not> bit ((2::64 word) ^ j) i) [0..<64] = [0..<j]"
    by (simp add: b takeWhile_tail)
  then show ?thesis by (simp add: TrailingZeros_def)
qed

lemma sint_exp_64:
  assumes "j \<le> 32"
  shows "sint ((2::64 word) ^ j) = 2 ^ j"
proof -
  have "(2::int) ^ j \<le> 2 ^ 32" using assms by (intro power_increasing) simp_all
  then have "(2::int) ^ j < 2 ^ 63" by simp
  moreover have "- ((2::int) ^ 63) \<le> 2 ^ j"
    by (rule order_trans [of _ 0]) simp_all
  moreover have "uint ((2::64 word) ^ j) = 2 ^ j"
  proof (rule uint_2p)
    show "(0::64 word) < 2 ^ j" using assms by (simp add: word_gt_0)
  qed
  ultimately show ?thesis
    by (simp add: sint_uint signed_take_bit_int_eq_self)
qed

lemma NewArrayList_power:
  assumes "n \<le> 2 ^ 32"
  shows "\<exists>j\<le>32. (NewArrayList n :: ('a::zero) ArrayList) =
           \<lparr>defaultValue = 0, count = 0, segments = [], segmentIdx = 0,
            segmentSize = 2 ^ j, segmentSizeMask = 2 ^ j - 1, segmentSizeShift = int j\<rparr> \<and>
          (if n \<le> 0 then DefaultSegmentSize else n) \<le> 2 ^ j \<and>
          (\<forall>i. (if n \<le> 0 then DefaultSegmentSize else n) \<le> 2 ^ i \<longrightarrow> j \<le> i)"
proof -
  let ?n1 = "if n \<le> 0 then DefaultSegmentSize else n"
  have n1: "0 < ?n1" "?n1 \<le> 2 ^ 32" using assms by (simp_all add: DefaultSegmentSize_def)
  let ?w = "word_of_int ?n1 :: 64 word"
  have "take_bit 64 ?n1 = ?n1"
    using n1 by (intro take_bit_int_eq_self) simp_all
  then have u: "unat ?w = nat ?n1" by (simp add: unsigned_of_int)
  have "0 < unat ?w" "unat ?w \<le> 2 ^ 32" using n1 unfolding u by simp_all
  from NearestPowerOf2_correct [OF this] obtain j where
    j: "j \<le> 32" "NearestPowerOf2 ?w = 2 ^ j" "unat ?w \<le> 2 ^ j"
      "\<forall>i. unat ?w \<le> 2 ^ i \<longrightarrow> j \<le> i"
    by blast
  have s: "sint (NearestPowerOf2 ?w) = 2 ^ j" using j(1,2) by (simp add: sint_exp_64)
  have t: "TrailingZeros (word_of_int (2 ^ j)) = int j"
    using TrailingZeros_exp [of j] j(1) by simp
  have 1: "(NewArrayList n :: 'a ArrayList) =
           \<lparr>defaultValue = 0, count = 0, segments = [], segmentIdx = 0,
            segmentSize = 2 ^ j, segmentSizeMask = 2 ^ j - 1, segmentSizeShift = int j\<rparr>"
    unfolding NewArrayList_def Let_def s t by simp
  have 2: "?n1 \<le> 2 ^ j" using j(3) n1 unfolding u by (simp add: nat_le_iff)
  have 3: "j \<le> i" if "?n1 \<le> 2 ^ i" for i
  proof -
    have "nat ?n1 \<le> 2 ^ i" using that by (simp add: nat_le_iff)
    with j(4) show ?thesis unfolding u by blast
  qed
  show ?thesis using j(1) 1 2 3 by blast
qed

lemma NewArrayList_inv:
  assumes "n \<le> 2 ^ 32"
  shows "ArrayList_inv (NewArrayList n :: ('a::zero) ArrayList)"
proof -
  from NewArrayList_power [OF assms, where 'a = 'a] obtain j where
    "(NewArrayList n :: 'a ArrayList) =
           \<lparr>defaultValue = 0, count = 0, segments = [], segmentIdx = 0,
            segmentSize = 2 ^ j, segmentSizeMask = 2 ^ j - 1, segmentSizeShift = int j\<rparr>"
    by blast
  then show ?thesis using ArrayList_inv_empty [of "0::'a" j] by simp
qed


lemma ArrayList_Clear_inv: "ArrayList_inv al \<Longrightarrow> ArrayList_inv (ArrayList_Clear al)"
  unfolding ArrayList_inv_def ArrayList_Clear_def by simp


lemma ArrayList_reachable_inv: "ArrayList_reachable al \<Longrightarrow> ArrayList_inv al"
proof (induction rule: ArrayList_reachable.induct)
  case (al_reach_new n)
  then show ?case by (rule NewArrayList_inv)
next
  case (al_reach_alloc al r al')
  with ArrayList_Alloc_inv [of al] show ?case by auto
next
  case (al_reach_store al idx r v)
  then show ?case by (simp add: ArrayList_store_inv)
next
  case (al_reach_remove al al')
  with ArrayList_RemoveLast_inv [of al] show ?case by auto
next
  case (al_reach_clear al)
  then show ?case by (simp add: ArrayList_Clear_inv)
qed



section \<open>The remaining claims\<close>

text \<open>
  Claim C3 (releasing twice), as the code has it. In the segmented pool a \<^verbatim>\<open>Free\<close> that
  returned leaves a state in which the same \<^verbatim>\<open>Free\<close> changes nothing. In the contiguous
  pool the same holds when the index went to the free set (\<open>id \<noteq> alloc - 1\<close>). When the
  index was the most recently allocated one (\<open>id = alloc - 1\<close>), the first \<^verbatim>\<open>Free\<close>
  retracts the allocation pointer to \<open>id\<close>, and the second \<^verbatim>\<open>Free\<close> of the same index
  panics with the invalid-free error.
\<close>

theorem release_twice:
  "(Pool_Free p i = Inr p' \<longrightarrow> Pool_Free p' i = Inr p') \<and>
   (ArrayPool_Free ap j = Inr ap' \<and> j \<noteq> alloc ap - 1 \<longrightarrow> ArrayPool_Free ap' j = Inr ap') \<and>
   (ArrayPool_Free ap j = Inr ap' \<and> j = alloc ap - 1 \<longrightarrow>
      alloc ap' = j \<and> ArrayPool_Free ap' j = Inl (InvalidFree j (alloc ap')))"
proof (intro conjI impI)
  assume f: "Pool_Free p i = Inr p'"
  show "Pool_Free p' i = Inr p'"
  proof (cases "i < 0 \<or> i \<ge> count (items p) \<or> i \<in> frees p")
    case True
    then have "p' = p" using f
      by (auto simp: Pool_Free_def ArrayList_Count_def split: if_splits)
    with f show ?thesis by simp
  next
    case False
    then obtain r where "ArrayList_GetRef (items p) i = Inr r"
      and p': "p' = p\<lparr>items := ArrayList_store (items p) r (defaultValue (items p)),
                      frees := insert i (frees p)\<rparr>"
      using f by (auto simp: Pool_Free_def ArrayList_Count_def split: sum.splits)
    show ?thesis by (simp add: p' Pool_Free_def ArrayList_Count_def)
  qed
next
  assume "ArrayPool_Free ap j = Inr ap' \<and> j \<noteq> alloc ap - 1"
  then show "ArrayPool_Free ap' j = Inr ap'"
    by (auto simp: ArrayPool_Free_def Let_def split: if_splits)
next
  assume a: "ArrayPool_Free ap j = Inr ap' \<and> j = alloc ap - 1"
  then show "alloc ap' = j"
    by (auto simp: ArrayPool_Free_def Let_def split: if_splits)
  then show "ArrayPool_Free ap' j = Inl (InvalidFree j (alloc ap'))"
    by (simp add: ArrayPool_Free_def)
qed

theorem release_twice_fast_path_counterexample:
  "ArrayPool_Free \<lparr>arr = [0, 5, 0::int], alloc = 2, free = {}\<rparr> 1
     = Inr \<lparr>arr = [0, 0, 0], alloc = 1, free = {}\<rparr> \<and>
   ArrayPool_Free \<lparr>arr = [0, 0, 0::int], alloc = 1, free = {}\<rparr> 1 = Inl (InvalidFree 1 1)"
  by (simp add: ArrayPool_Free_def Let_def)

theorem release_twice_witness:
  "Pool_Free \<lparr>frees = {}, items = \<lparr>defaultValue = 0::int, count = 1,
       segments = [\<lparr>seg_arr = [7, 0], seg_count = 1\<rparr>], segmentIdx = 0, segmentSize = 2,
       segmentSizeMask = 1, segmentSizeShift = 1\<rparr>\<rparr> 0
     = Inr \<lparr>frees = {0}, items = \<lparr>defaultValue = 0::int, count = 1,
       segments = [\<lparr>seg_arr = [0, 0], seg_count = 1\<rparr>], segmentIdx = 0, segmentSize = 2,
       segmentSizeMask = 1, segmentSizeShift = 1\<rparr>\<rparr> \<and>
   Pool_Free \<lparr>frees = {0}, items = \<lparr>defaultValue = 0::int, count = 1,
       segments = [\<lparr>seg_arr = [0, 0], seg_count = 1\<rparr>], segmentIdx = 0, segmentSize = 2,
       segmentSizeMask = 1, segmentSizeShift = 1\<rparr>\<rparr> 0
     = Inr \<lparr>frees = {0}, items = \<lparr>defaultValue = 0::int, count = 1,
       segments = [\<lparr>seg_arr = [0, 0], seg_count = 1\<rparr>], segmentIdx = 0, segmentSize = 2,
       segmentSizeMask = 1, segmentSizeShift = 1\<rparr>\<rparr> \<and>
   ArrayPool_Free \<lparr>arr = [0, 5, 6::int], alloc = 3, free = {}\<rparr> 1
     = Inr \<lparr>arr = [0, 0, 6], alloc = 3, free = {1}\<rparr> \<and>
   ArrayPool_Free \<lparr>arr = [0, 0, 6::int], alloc = 3, free = {1}\<rparr> 1
     = Inr \<lparr>arr = [0, 0, 6], alloc = 3, free = {1}\<rparr> \<and>
   ArrayPool_Free \<lparr>arr = [0, 5, 6::int], alloc = 3, free = {}\<rparr> 2
     = Inr \<lparr>arr = [0, 5, 0], alloc = 2, free = {}\<rparr> \<and>
   ArrayPool_Free \<lparr>arr = [0, 5, 0::int], alloc = 2, free = {}\<rparr> 2 = Inl (InvalidFree 2 2)"
proof -
  let ?p = "\<lparr>frees = {}, items = \<lparr>defaultValue = 0::int, count = 1,
       segments = [\<lparr>seg_arr = [7, 0], seg_count = 1\<rparr>], segmentIdx = 0, segmentSize = 2,
       segmentSizeMask = 1, segmentSizeShift = 1\<rparr>\<rparr>"
  let ?p' = "\<lparr>frees = {0}, items = \<lparr>defaultValue = 0::int, count = 1,
       segments = [\<lparr>seg_arr = [0, 0], seg_count = 1\<rparr>], segmentIdx = 0, segmentSize = 2,
       segmentSizeMask = 1, segmentSizeShift = 1\<rparr>\<rparr>"
  have 1: "Pool_Free ?p 0 = Inr ?p'"
    by (simp add: Pool_Free_def ArrayList_Count_def ArrayList_GetRef_def ArrayList_store_def
          in_range_def Let_def)
  have 2: "ArrayPool_Free \<lparr>arr = [0, 5, 6::int], alloc = 3, free = {}\<rparr> 1
     = Inr \<lparr>arr = [0, 0, 6], alloc = 3, free = {1}\<rparr>"
    by (simp add: ArrayPool_Free_def Let_def)
  have 3: "ArrayPool_Free \<lparr>arr = [0, 5, 6::int], alloc = 3, free = {}\<rparr> 2
     = Inr \<lparr>arr = [0, 5, 0], alloc = 2, free = {}\<rparr>"
    by (simp add: ArrayPool_Free_def Let_def numeral_2_eq_2)
  show ?thesis
    using release_twice [of ?p 0 ?p' "\<lparr>arr = [0, 5, 6::int], alloc = 3, free = {}\<rparr>" 1
            "\<lparr>arr = [0, 0, 6], alloc = 3, free = {1}\<rparr>"]
          release_twice [of ?p 0 ?p' "\<lparr>arr = [0, 5, 6::int], alloc = 3, free = {}\<rparr>" 2
            "\<lparr>arr = [0, 5, 0], alloc = 2, free = {}\<rparr>"]
          1 2 3
    by simp
qed

lemma NearestPowerOf2_4: "NearestPowerOf2 4 = 4"
  by (simp add: NearestPowerOf2_def Let_def)

lemma NearestPowerOf2_3: "NearestPowerOf2 3 = 4"
  by (simp add: NearestPowerOf2_def Let_def)

lemma TrailingZeros_4: "TrailingZeros 4 = 2"
  by (simp add: TrailingZeros_def upt_rec)

lemma NewArrayList_4:
  "(NewArrayList 4 :: ('a::zero) ArrayList) =
     \<lparr>defaultValue = 0, count = 0, segments = [], segmentIdx = 0,
      segmentSize = 4, segmentSizeMask = 3, segmentSizeShift = 2\<rparr>"
  by (simp add: NewArrayList_def Let_def NearestPowerOf2_4 TrailingZeros_4)

lemma NewArrayList_3:
  "(NewArrayList 3 :: ('a::zero) ArrayList) =
     \<lparr>defaultValue = 0, count = 0, segments = [], segmentIdx = 0,
      segmentSize = 4, segmentSizeMask = 3, segmentSizeShift = 2\<rparr>"
  by (simp add: NewArrayList_def Let_def NearestPowerOf2_3 TrailingZeros_4)



lemma five_allocs:
  "ArrayList_Alloc_n 5 (NewArrayList 4 :: ('a::zero) ArrayList) =
     Inr \<lparr>defaultValue = 0, count = 5,
          segments = [\<lparr>seg_arr = [0, 0, 0, 0], seg_count = 4\<rparr>,
                      \<lparr>seg_arr = [0, 0, 0, 0], seg_count = 1\<rparr>],
          segmentIdx = 1, segmentSize = 4, segmentSizeMask = 3, segmentSizeShift = 2\<rparr>"
  by (simp add: NewArrayList_4 eval_nat_numeral ArrayList_Alloc_def append_segment_def
        make_slice_def in_range_def Let_def)



text \<open>
  Claim C8 (shrink policy of \<^verbatim>\<open>RemoveLast\<close>), as the code has it. In a well-formed,
  non-empty list whose cursor segment holds one element, \<^verbatim>\<open>RemoveLast\<close> returns; the
  count goes down by one, the cursor retreats by one segment, clamped at zero; the
  segment list is cut just after the drained segment, so the drained segment stays in
  the list with its array and a count of zero, and the segment after the drained one, if
  there was one, is dropped; every remaining segment keeps its array. At most one
  segment follows the new cursor, it is empty, and the list is well-formed again.
\<close>

theorem RemoveLast_shrink:
  "ArrayList_inv al \<and> 0 < count al \<and> seg_count (segments al ! nat (segmentIdx al)) = 1 \<longrightarrow>
     (\<exists>al'. ArrayList_RemoveLast al = Inr al' \<and>
        count al' = count al - 1 \<and>
        segmentIdx al' = max 0 (segmentIdx al - 1) \<and>
        length (segments al') = nat (segmentIdx al) + 1 \<and>
        (\<forall>i < length (segments al'). seg_arr (segments al' ! i) = seg_arr (segments al ! i)) \<and>
        seg_count (segments al' ! nat (segmentIdx al)) = 0 \<and>
        int (length (segments al')) \<le> segmentIdx al' + 2 \<and>
        (\<forall>i < length (segments al'). segmentIdx al' < int i \<longrightarrow> seg_count (segments al' ! i) = 0) \<and>
        ArrayList_inv al')"
proof
  assume a: "ArrayList_inv al \<and> 0 < count al \<and> seg_count (segments al ! nat (segmentIdx al)) = 1"
  then have inv: "ArrayList_inv al" and pos: "0 < count al"
    and one: "seg_count (segments al ! nat (segmentIdx al)) = 1" by simp_all
  let ?k = "segmentIdx al"
  have ne: "segments al \<noteq> []" using ArrayList_invD(4) [OF inv] pos by auto
  note k = ArrayList_invD(5) [OF inv ne] and l2 = ArrayList_invD(6) [OF inv ne]
  obtain kk where kk: "?k = int kk" using k by (auto simp: in_range_def intro: nonneg_int_cases)
  have kn: "kk < length (segments al)" using k kk by (simp add: in_range_def)
  let ?al' = "al\<lparr>segments := take (Suc kk) ((segments al)[kk := (segments al ! kk)\<lparr>seg_count := 0\<rparr>]),
                 count := count al - 1,
                 segmentIdx := (if ?k > 0 then ?k - 1 else ?k)\<rparr>"
  have r: "ArrayList_RemoveLast al = Inr ?al'"
  proof (cases "int (length (segments al)) - 1 = ?k")
    case True
    then have "take (Suc kk) ((segments al)[kk := (segments al ! kk)\<lparr>seg_count := 0\<rparr>])
        = (segments al)[kk := (segments al ! kk)\<lparr>seg_count := 0\<rparr>]"
      using kk by simp
    then show ?thesis
      using pos k kk one True
      by (cases al) (auto simp: ArrayList_RemoveLast_def Let_def in_range_def)
  next
    case False
    then have len: "length (segments al) = Suc (Suc kk)" using l2 kn kk by simp
    have nk1: "nat (int kk + 1) = Suc kk" "nat (1 + int kk) = Suc kk" by simp_all
    show ?thesis
      using pos k kk one False len
      by (cases al) (auto simp: ArrayList_RemoveLast_def Let_def in_range_def nk1)
  qed
  from ArrayList_RemoveLast_inv [OF inv] r have inv': "ArrayList_inv ?al'" by auto
  have len': "length (segments ?al') = Suc kk" using kn by simp
  have 1: "count ?al' = count al - 1" by simp
  have 2: "segmentIdx ?al' = max 0 (?k - 1)" using kk by auto
  have 3: "length (segments ?al') = nat ?k + 1" using len' kk by simp
  have 4: "\<forall>i < length (segments ?al'). seg_arr (segments ?al' ! i) = seg_arr (segments al ! i)"
    using kn by (simp add: seg_arr_update_count)
  have 5: "seg_count (segments ?al' ! nat ?k) = 0" using kn kk by simp
  have 6: "int (length (segments ?al')) \<le> segmentIdx ?al' + 2"
    using kk kn by auto
  have 7: "\<forall>i < length (segments ?al'). segmentIdx ?al' < int i \<longrightarrow>
             seg_count (segments ?al' ! i) = 0"
  proof (intro allI impI)
    fix i assume i: "i < length (segments ?al')" "segmentIdx ?al' < int i"
    have ne': "segments ?al' \<noteq> []" using len' by auto
    from ArrayList_invD(10) [OF inv' i(1)] i(2)
    show "seg_count (segments ?al' ! i) = 0" by simp
  qed
  show "\<exists>al'. ArrayList_RemoveLast al = Inr al' \<and>
        count al' = count al - 1 \<and>
        segmentIdx al' = max 0 (segmentIdx al - 1) \<and>
        length (segments al') = nat (segmentIdx al) + 1 \<and>
        (\<forall>i < length (segments al'). seg_arr (segments al' ! i) = seg_arr (segments al ! i)) \<and>
        seg_count (segments al' ! nat (segmentIdx al)) = 0 \<and>
        int (length (segments al')) \<le> segmentIdx al' + 2 \<and>
        (\<forall>i < length (segments al'). segmentIdx al' < int i \<longrightarrow> seg_count (segments al' ! i) = 0) \<and>
        ArrayList_inv al'"
    by (rule exI [of _ ?al']) (intro conjI r 1 2 3 4 5 6 7 inv')
qed

lemma NearestPowerOf2_2: "NearestPowerOf2 2 = 2"
  by (simp add: NearestPowerOf2_def Let_def)

lemma TrailingZeros_2: "TrailingZeros 2 = 1"
  by (simp add: TrailingZeros_def upt_rec)

lemma NewArrayList_2:
  "(NewArrayList 2 :: ('a::zero) ArrayList) =
     \<lparr>defaultValue = 0, count = 0, segments = [], segmentIdx = 0,
      segmentSize = 2, segmentSizeMask = 1, segmentSizeShift = 1\<rparr>"
  by (simp add: NewArrayList_def Let_def NearestPowerOf2_2 TrailingZeros_2)

theorem RemoveLast_shrink_counterexample:
  "ArrayList_Alloc_n 5 (NewArrayList 2) =
     Inr \<lparr>defaultValue = 0::int, count = 5,
          segments = [\<lparr>seg_arr = [0, 0], seg_count = 2\<rparr>, \<lparr>seg_arr = [0, 0], seg_count = 2\<rparr>,
                      \<lparr>seg_arr = [0, 0], seg_count = 1\<rparr>],
          segmentIdx = 2, segmentSize = 2, segmentSizeMask = 1, segmentSizeShift = 1\<rparr> \<and>
   ArrayList_RemoveLast
        \<lparr>defaultValue = 0::int, count = 5,
          segments = [\<lparr>seg_arr = [0, 0], seg_count = 2\<rparr>, \<lparr>seg_arr = [0, 0], seg_count = 2\<rparr>,
                      \<lparr>seg_arr = [0, 0], seg_count = 1\<rparr>],
          segmentIdx = 2, segmentSize = 2, segmentSizeMask = 1, segmentSizeShift = 1\<rparr> =
     Inr \<lparr>defaultValue = 0::int, count = 4,
          segments = [\<lparr>seg_arr = [0, 0], seg_count = 2\<rparr>, \<lparr>seg_arr = [0, 0], seg_count = 2\<rparr>,
                      \<lparr>seg_arr = [0, 0], seg_count = 0\<rparr>],
          segmentIdx = 1, segmentSize = 2, segmentSizeMask = 1, segmentSizeShift = 1\<rparr> \<and>
   ArrayList_RemoveLast
        \<lparr>defaultValue = 0::int, count = 4,
          segments = [\<lparr>seg_arr = [0, 0], seg_count = 2\<rparr>, \<lparr>seg_arr = [0, 0], seg_count = 2\<rparr>,
                      \<lparr>seg_arr = [0, 0], seg_count = 0\<rparr>],
          segmentIdx = 1, segmentSize = 2, segmentSizeMask = 1, segmentSizeShift = 1\<rparr> =
     Inr \<lparr>defaultValue = 0::int, count = 3,
          segments = [\<lparr>seg_arr = [0, 0], seg_count = 2\<rparr>, \<lparr>seg_arr = [0, 0], seg_count = 1\<rparr>,
                      \<lparr>seg_arr = [0, 0], seg_count = 0\<rparr>],
          segmentIdx = 1, segmentSize = 2, segmentSizeMask = 1, segmentSizeShift = 1\<rparr> \<and>
   ArrayList_RemoveLast
        \<lparr>defaultValue = 0::int, count = 3,
          segments = [\<lparr>seg_arr = [0, 0], seg_count = 2\<rparr>, \<lparr>seg_arr = [0, 0], seg_count = 1\<rparr>,
                      \<lparr>seg_arr = [0, 0], seg_count = 0\<rparr>],
          segmentIdx = 1, segmentSize = 2, segmentSizeMask = 1, segmentSizeShift = 1\<rparr> =
     Inr \<lparr>defaultValue = 0::int, count = 2,
          segments = [\<lparr>seg_arr = [0, 0], seg_count = 2\<rparr>, \<lparr>seg_arr = [0, 0], seg_count = 0\<rparr>],
          segmentIdx = 0, segmentSize = 2, segmentSizeMask = 1, segmentSizeShift = 1\<rparr> \<and>
   ArrayList_RemoveLast_spec
        \<lparr>defaultValue = 0::int, count = 3,
          segments = [\<lparr>seg_arr = [0, 0], seg_count = 2\<rparr>, \<lparr>seg_arr = [0, 0], seg_count = 1\<rparr>,
                      \<lparr>seg_arr = [0, 0], seg_count = 0\<rparr>],
          segmentIdx = 1, segmentSize = 2, segmentSizeMask = 1, segmentSizeShift = 1\<rparr> =
     Inr \<lparr>defaultValue = 0::int, count = 2,
          segments = [\<lparr>seg_arr = [0, 0], seg_count = 2\<rparr>],
          segmentIdx = 0, segmentSize = 2, segmentSizeMask = 1, segmentSizeShift = 1\<rparr>"
proof (intro conjI)
  show "ArrayList_Alloc_n 5 (NewArrayList 2) =
     Inr \<lparr>defaultValue = 0::int, count = 5,
          segments = [\<lparr>seg_arr = [0, 0], seg_count = 2\<rparr>, \<lparr>seg_arr = [0, 0], seg_count = 2\<rparr>,
                      \<lparr>seg_arr = [0, 0], seg_count = 1\<rparr>],
          segmentIdx = 2, segmentSize = 2, segmentSizeMask = 1, segmentSizeShift = 1\<rparr>"
    by (simp add: NewArrayList_2 eval_nat_numeral ArrayList_Alloc_def append_segment_def
          make_slice_def in_range_def Let_def)
qed (simp_all add: ArrayList_RemoveLast_def ArrayList_RemoveLast_spec_def in_range_def Let_def
       eval_nat_numeral)

theorem RemoveLast_shrink_witness:
  "ArrayList_inv \<lparr>defaultValue = 0::int, count = 3,
          segments = [\<lparr>seg_arr = [0, 0], seg_count = 2\<rparr>, \<lparr>seg_arr = [0, 0], seg_count = 1\<rparr>,
                      \<lparr>seg_arr = [0, 0], seg_count = 0\<rparr>],
          segmentIdx = 1, segmentSize = 2, segmentSizeMask = 1, segmentSizeShift = 1\<rparr> \<and>
   (\<exists>al'. ArrayList_RemoveLast \<lparr>defaultValue = 0::int, count = 3,
          segments = [\<lparr>seg_arr = [0, 0], seg_count = 2\<rparr>, \<lparr>seg_arr = [0, 0], seg_count = 1\<rparr>,
                      \<lparr>seg_arr = [0, 0], seg_count = 0\<rparr>],
          segmentIdx = 1, segmentSize = 2, segmentSizeMask = 1, segmentSizeShift = 1\<rparr> = Inr al' \<and>
      count al' = 2 \<and> segmentIdx al' = 0 \<and> length (segments al') = 2 \<and>
      seg_arr (segments al' ! 1) = [0, 0] \<and> seg_count (segments al' ! 1) = 0 \<and>
      ArrayList_inv al')"
proof -
  let ?al = "\<lparr>defaultValue = 0::int, count = 3,
          segments = [\<lparr>seg_arr = [0, 0], seg_count = 2\<rparr>, \<lparr>seg_arr = [0, 0], seg_count = 1\<rparr>,
                      \<lparr>seg_arr = [0, 0], seg_count = 0\<rparr>],
          segmentIdx = 1, segmentSize = 2, segmentSizeMask = 1, segmentSizeShift = 1\<rparr>"
  have inv: "ArrayList_inv ?al"
    by (simp add: ArrayList_inv_def in_range_def less_Suc_eq)
  from RemoveLast_shrink [of ?al] inv obtain al' where
    "ArrayList_RemoveLast ?al = Inr al'" "count al' = 2" "segmentIdx al' = 0"
    "length (segments al') = 2"
    "\<forall>i < length (segments al'). seg_arr (segments al' ! i) = seg_arr (segments ?al ! i)"
    "seg_count (segments al' ! 1) = 0" "ArrayList_inv al'"
    by auto
  then show ?thesis using inv by auto
qed









text \<open>
  Claim C9 (rounding up to a power of two) at the input \<open>2^32 + 1\<close>: the shifts stop at
  16, so only the 32 bits below the highest set bit are filled; the result is
  \<open>2^33 - 1\<close>, which is not a power of two. For the inputs from 1 to \<open>2^32\<close> the result
  is the smallest power of two that is not below the input (\<open>NearestPowerOf2_correct\<close>).
\<close>

theorem NearestPowerOf2_above_2_32:
  "NearestPowerOf2 4294967297 = 8589934591 \<and>
   (\<forall>k. unat (NearestPowerOf2 4294967297) \<noteq> 2 ^ k)"
proof
  show e: "NearestPowerOf2 4294967297 = 8589934591"
    by (simp add: NearestPowerOf2_def Let_def)
  show "\<forall>k. unat (NearestPowerOf2 4294967297) \<noteq> 2 ^ k"
  proof
    fix k :: nat
    have u: "unat (NearestPowerOf2 4294967297) = 8589934591" by (simp add: e)
    show "unat (NearestPowerOf2 4294967297) \<noteq> 2 ^ k"
    proof (cases k)
      case 0
      then show ?thesis by (simp add: u)
    next
      case (Suc m)
      have "odd (8589934591::nat)" by simp
      moreover have "even ((2::nat) ^ k)" using Suc by simp
      ultimately show ?thesis unfolding u by metis
    qed
  qed
qed

lemma Pool_Alloc_nonempty: "Pool_Alloc p \<noteq> {}"
  by (simp add: Pool_Alloc_def)

lemma Pool_allocs_exist:
  assumes "Pool_inv p"
  shows "\<exists>ks p1. Pool_allocs p ks p1 \<and> length ks = n"
  using assms
proof (induction n arbitrary: p)
  case 0
  show ?case using Pool_allocs_Nil [of p] by (intro exI [of _ "[]"] exI [of _ p]) simp
next
  case (Suc n)
  obtain x where x: "x \<in> Pool_Alloc p" using Pool_Alloc_nonempty [of p] by blast
  from Pool_Alloc_inv [OF Suc.prems x] obtain k r p' where
    x': "x = Inr (k, r, p')" and inv': "Pool_inv p'" by blast
  from Suc.IH [OF inv'] obtain ks p1 where r: "Pool_allocs p' ks p1" "length ks = n" by blast
  have "Pool_allocs p (k # ks) p1"
    by (rule Pool_allocs_Cons [OF _ r(1)]) (use x x' in simp)
  with r(2) show ?case by (intro exI [of _ "k # ks"] exI [of _ p1]) simp
qed

lemma ArrayPool_allocs_exist:
  assumes "ArrayPool_inv ap"
  shows "\<exists>ks ap1. ArrayPool_allocs ap ks ap1 \<and> length ks = n"
  using assms
proof (induction n arbitrary: ap)
  case 0
  show ?case using ArrayPool_allocs_Nil [of ap] by (intro exI [of _ "[]"] exI [of _ ap]) simp
next
  case (Suc n)
  from ArrayPool_Alloc_depth_sound [OF ArrayPool_Alloc_depth_2 [OF Suc.prems]]
  obtain R where R: "ArrayPool_Alloc ap = Some R" "R \<noteq> {}" by (auto split: if_splits)
  then obtain k ap' where m: "(k, ap') \<in> R" by auto
  from ArrayPool_inv_alloc [OF Suc.prems R(1) m] have "ArrayPool_inv ap'" .
  from Suc.IH [OF this] obtain ks ap1 where r: "ArrayPool_allocs ap' ks ap1" "length ks = n"
    by blast
  have "ArrayPool_allocs ap (k # ks) ap1" by (rule ArrayPool_allocs_Cons [OF R(1) m r(1)])
  with r(2) show ?case by (intro exI [of _ "k # ks"] exI [of _ ap1]) simp
qed

lemma Pool_inv_New_3: "Pool_inv (NewPool 3 :: ('a::zero) Pool)"
  using ArrayList_inv_empty [of "0::'a" 2] by (simp add: Pool_inv_def NewPool_def NewArrayList_3)

lemma Pool_inv_New_2: "Pool_inv (NewPool 2 :: ('a::zero) Pool)"
  using ArrayList_inv_empty [of "0::'a" 1] by (simp add: Pool_inv_def NewPool_def NewArrayList_2)

text \<open>
  Claim C2 (allocation order of the segmented pool). In a well-formed pool (\<open>Pool_inv\<close>,
  which holds in every state reached from a pool made with a segment size up to
  \<open>2^32\<close>) with a non-empty free set, the possible outcomes of \<^verbatim>\<open>Alloc\<close> are exactly: a member \<open>k\<close> of the
  free set, the reference to the slot of \<open>k\<close> (the one \<^verbatim>\<open>GetRef\<close> returns), and the pool
  with \<open>k\<close> removed from the free set. With an empty free set the only outcome is the
  list's count as the index, with the slot newly allocated at the tail, which is the
  slot of that index in the list afterwards. In the scenario (segment size 3, 35
  allocations, the 9 indices freed), the 35 indices are 0 to 34, and every outcome of the
  next \<^verbatim>\<open>Alloc\<close> returns one of the 9 freed indices, not 35, and leaves \<^verbatim>\<open>Count()\<close> at 27.
\<close>

theorem Pool_Alloc_order:
  "(Pool_inv p \<and> frees p \<noteq> {} \<longrightarrow>
      Pool_Alloc p = (\<lambda>k. Inr (k, slot_of (items p) k, p\<lparr>frees := frees p - {k}\<rparr>)) ` frees p \<and>
      (\<forall>k \<in> frees p. ArrayList_GetRef (items p) k = Inr (slot_of (items p) k))) \<and>
   (Pool_inv p \<and> frees p = {} \<longrightarrow>
      (\<exists>r al'. Pool_Alloc p = {Inr (count (items p), r, p\<lparr>items := al'\<rparr>)} \<and>
         ArrayList_Alloc (items p) = Inr (r, al') \<and> count al' = count (items p) + 1 \<and>
         ArrayList_GetRef al' (count (items p)) = Inr r)) \<and>
   (Pool_allocs (NewPool 3 :: ('a::zero) Pool) ks p1 \<and> length ks = 35 \<and>
    Pool_Free_all p1 [0, 4, 34, 27, 3, 16, 11, 12, 8] = Inr p2 \<and> x \<in> Pool_Alloc p2 \<longrightarrow>
      ks = map int [0..<35] \<and>
      (\<exists>k r p3. x = Inr (k, r, p3) \<and> k \<in> {0, 4, 34, 27, 3, 16, 11, 12, 8} \<and> k \<noteq> 35 \<and>
         Pool_Count p3 = 27))"
proof (intro conjI impI ballI)
  assume a: "Pool_inv p \<and> frees p \<noteq> {}"
  then show "Pool_Alloc p =
      (\<lambda>k. Inr (k, slot_of (items p) k, p\<lparr>frees := frees p - {k}\<rparr>)) ` frees p"
    by (simp add: Pool_Alloc_free)
  fix k assume "k \<in> frees p"
  with a have "0 \<le> k" "k < count (items p)" "ArrayList_inv (items p)"
    using Pool_invD [of p] by simp_all
  then show "ArrayList_GetRef (items p) k = Inr (slot_of (items p) k)"
    using ArrayList_GetRef_inv [of "items p" k] by (simp add: slot_of_divmod)
next
  assume a: "Pool_inv p \<and> frees p = {}"
  then have inv: "Pool_inv p" and e: "frees p = {}" by simp_all
  from Pool_Alloc_fresh [OF inv e] obtain al' where
    al': "Pool_Alloc p =
            {Inr (count (items p), slot_of (items p) (count (items p)), p\<lparr>items := al'\<rparr>)}"
      "ArrayList_Alloc (items p) = Inr (slot_of (items p) (count (items p)), al')"
      "ArrayList_inv al'" "count al' = count (items p) + 1"
      "segmentSize al' = segmentSize (items p)"
    by blast
  have "ArrayList_GetRef al' (count (items p))
      = Inr (nat (count (items p) div segmentSize al'), nat (count (items p) mod segmentSize al'))"
    by (rule ArrayList_GetRef_inv [OF al'(3)])
       (use al'(4) count_nonneg [OF Pool_invD(1) [OF inv]] in simp_all)
  then have "ArrayList_GetRef al' (count (items p)) = Inr (slot_of (items p) (count (items p)))"
    by (simp add: slot_of_divmod [OF Pool_invD(1) [OF inv]] al'(5))
  with al' show "\<exists>r al'. Pool_Alloc p = {Inr (count (items p), r, p\<lparr>items := al'\<rparr>)} \<and>
         ArrayList_Alloc (items p) = Inr (r, al') \<and> count al' = count (items p) + 1 \<and>
         ArrayList_GetRef al' (count (items p)) = Inr r"
    by blast
next
  assume a: "Pool_allocs (NewPool 3 :: 'a Pool) ks p1 \<and> length ks = 35 \<and>
    Pool_Free_all p1 [0, 4, 34, 27, 3, 16, 11, 12, 8] = Inr p2 \<and> x \<in> Pool_Alloc p2"
  then have run: "Pool_allocs (NewPool 3 :: 'a Pool) ks p1" and len: "length ks = 35"
    and fr: "Pool_Free_all p1 [0, 4, 34, 27, 3, 16, 11, 12, 8] = Inr p2"
    and x: "x \<in> Pool_Alloc p2" by simp_all
  have c0: "count (items (NewPool 3 :: 'a Pool)) = 0" "frees (NewPool 3 :: 'a Pool) = {}"
    by (simp_all add: NewPool_def NewArrayList_3)
  from Pool_allocs_fresh [OF run Pool_inv_New_3 c0(2)] c0(1) len
  have ks: "ks = map (\<lambda>j. 0 + int j) [0..<35]" and p1: "Pool_inv p1" "frees p1 = {}"
    "count (items p1) = 35"
    by simp_all
  from ks show "ks = map int [0..<35]" by simp
  have "\<forall>i \<in> set [0, 4, 34, 27, 3, 16, 11, 12, 8]. 0 \<le> i \<and> i < count (items p1)"
    by (simp add: p1(3))
  from Pool_Free_all_inv [OF p1(1) this] fr p1(2,3)
  have p2: "Pool_inv p2" "frees p2 = {0, 4, 34, 27, 3, 16, 11, 12, 8}" "count (items p2) = 35"
    by auto
  have c: "Pool_Count p2 = 26" by (simp add: Pool_Count_def ArrayList_Count_def p2)
  from Pool_Alloc_inv [OF p2(1) x] obtain k r p3 where
    "x = Inr (k, r, p3)" "Pool_Count p3 = Pool_Count p2 + 1" "k \<in> frees p2"
    using p2(2) by auto
  then show "\<exists>k r p3. x = Inr (k, r, p3) \<and> k \<in> {0, 4, 34, 27, 3, 16, 11, 12, 8} \<and> k \<noteq> 35 \<and>
         Pool_Count p3 = 27"
    using c p2(2) by auto
qed

theorem Pool_Alloc_order_witness:
  "Pool_Alloc \<lparr>frees = {0}, items = \<lparr>defaultValue = 0::int, count = 1,
       segments = [\<lparr>seg_arr = [0, 0], seg_count = 1\<rparr>], segmentIdx = 0, segmentSize = 2,
       segmentSizeMask = 1, segmentSizeShift = 1\<rparr>\<rparr>
     = {Inr (0, (0, 0), \<lparr>frees = {}, items = \<lparr>defaultValue = 0::int, count = 1,
       segments = [\<lparr>seg_arr = [0, 0], seg_count = 1\<rparr>], segmentIdx = 0, segmentSize = 2,
       segmentSizeMask = 1, segmentSizeShift = 1\<rparr>\<rparr>)} \<and>
   (\<exists>r al'. Pool_Alloc \<lparr>frees = {}, items = \<lparr>defaultValue = 0::int, count = 1,
       segments = [\<lparr>seg_arr = [0, 0], seg_count = 1\<rparr>], segmentIdx = 0, segmentSize = 2,
       segmentSizeMask = 1, segmentSizeShift = 1\<rparr>\<rparr>
     = {Inr (1, r, \<lparr>frees = {}, items = al'\<rparr>)} \<and> count al' = 2 \<and>
       ArrayList_GetRef al' 1 = Inr r) \<and>
   (\<exists>ks p1 p2 x. Pool_allocs (NewPool 3 :: int Pool) ks p1 \<and> length ks = 35 \<and>
      Pool_Free_all p1 [0, 4, 34, 27, 3, 16, 11, 12, 8] = Inr p2 \<and> x \<in> Pool_Alloc p2 \<and>
      ks = map int [0..<35] \<and>
      (\<exists>k r p3. x = Inr (k, r, p3) \<and> k \<in> {0, 4, 34, 27, 3, 16, 11, 12, 8} \<and>
         Pool_Count p3 = 27))"
proof (intro conjI)
  let ?al = "\<lparr>defaultValue = 0::int, count = 1,
       segments = [\<lparr>seg_arr = [0, 0], seg_count = 1\<rparr>], segmentIdx = 0, segmentSize = 2,
       segmentSizeMask = 1, segmentSizeShift = 1\<rparr>"
  have ai: "ArrayList_inv ?al" by (simp add: ArrayList_inv_def in_range_def)
  have inv1: "Pool_inv \<lparr>frees = {0}, items = ?al\<rparr>" using ai by (simp add: Pool_inv_def)
  have inv2: "Pool_inv \<lparr>frees = {}, items = ?al\<rparr>" using ai by (simp add: Pool_inv_def)
  show "Pool_Alloc \<lparr>frees = {0}, items = ?al\<rparr>
     = {Inr (0, (0, 0), \<lparr>frees = {}, items = ?al\<rparr>)}"
    using Pool_Alloc_order [THEN conjunct1, of "\<lparr>frees = {0}, items = ?al\<rparr>"] inv1
    by (simp add: slot_of_def)
  show "\<exists>r al'. Pool_Alloc \<lparr>frees = {}, items = ?al\<rparr>
     = {Inr (1, r, \<lparr>frees = {}, items = al'\<rparr>)} \<and> count al' = 2 \<and>
       ArrayList_GetRef al' 1 = Inr r"
    using Pool_Alloc_order [THEN conjunct2, THEN conjunct1, of "\<lparr>frees = {}, items = ?al\<rparr>"]
      inv2
    by auto
  from Pool_allocs_exist [OF Pool_inv_New_3, of 35] obtain ks and p1 :: "int Pool" where
    run: "Pool_allocs (NewPool 3) ks p1" "length ks = 35" by blast
  have c0: "count (items (NewPool 3 :: int Pool)) = 0" "frees (NewPool 3 :: int Pool) = {}"
    by (simp_all add: NewPool_def NewArrayList_3)
  from Pool_allocs_fresh [OF run(1) Pool_inv_New_3 c0(2)] c0(1) run(2)
  have p1: "Pool_inv p1" "count (items p1) = 35" by simp_all
  have "\<forall>i \<in> set [0, 4, 34, 27, 3, 16, 11, 12, 8]. 0 \<le> i \<and> i < count (items p1)"
    by (simp add: p1(2))
  from Pool_Free_all_inv [OF p1(1) this] obtain p2 where
    p2: "Pool_Free_all p1 [0, 4, 34, 27, 3, 16, 11, 12, 8] = Inr p2" by blast
  obtain x where x: "x \<in> Pool_Alloc p2" using Pool_Alloc_nonempty [of p2] by blast
  from Pool_Alloc_order [THEN conjunct2, THEN conjunct2, THEN mp, of ks p1 p2 x] run p2 x
  have "ks = map int [0..<35] \<and>
      (\<exists>k r p3. x = Inr (k, r, p3) \<and> k \<in> {0, 4, 34, 27, 3, 16, 11, 12, 8} \<and> k \<noteq> 35 \<and>
         Pool_Count p3 = 27)"
    by simp
  with run p2 x show "\<exists>ks p1 p2 x. Pool_allocs (NewPool 3 :: int Pool) ks p1 \<and> length ks = 35 \<and>
      Pool_Free_all p1 [0, 4, 34, 27, 3, 16, 11, 12, 8] = Inr p2 \<and> x \<in> Pool_Alloc p2 \<and>
      ks = map int [0..<35] \<and>
      (\<exists>k r p3. x = Inr (k, r, p3) \<and> k \<in> {0, 4, 34, 27, 3, 16, 11, 12, 8} \<and>
         Pool_Count p3 = 27)"
    by blast
qed

theorem reuse_round_trip_counterexample:
  "NewArrayPool 4 = Inr \<lparr>arr = [0, 0, 0, 0, 0::int], alloc = 1, free = {}\<rparr> \<and>
   ArrayPool_Alloc \<lparr>arr = [0, 0, 0, 0, 0::int], alloc = 1, free = {}\<rparr>
     = Some {(1, \<lparr>arr = [0, 0, 0, 0, 0], alloc = 2, free = {}\<rparr>)} \<and>
   ArrayPool_Alloc \<lparr>arr = [0, 0, 0, 0, 0::int], alloc = 2, free = {}\<rparr>
     = Some {(2, \<lparr>arr = [0, 0, 0, 0, 0], alloc = 3, free = {}\<rparr>)} \<and>
   ArrayPool_Free \<lparr>arr = [0, 0, 0, 0, 0::int], alloc = 3, free = {}\<rparr> 1
     = Inr \<lparr>arr = [0, 0, 0, 0, 0], alloc = 3, free = {1}\<rparr> \<and>
   ArrayPool_Free \<lparr>arr = [0, 0, 0, 0, 0::int], alloc = 3, free = {1}\<rparr> 2
     = Inr \<lparr>arr = [0, 0, 0, 0, 0], alloc = 2, free = {1}\<rparr> \<and>
   ArrayPool_Alloc \<lparr>arr = [0, 0, 0, 0, 0::int], alloc = 2, free = {1}\<rparr>
     = Some {(2, \<lparr>arr = [0, 0, 0, 0, 0], alloc = 3, free = {1}\<rparr>)} \<and>
   ArrayPool_Alloc \<lparr>arr = [0, 0, 0, 0, 0::int], alloc = 3, free = {1}\<rparr>
     = Some {(3, \<lparr>arr = [0, 0, 0, 0, 0], alloc = 4, free = {1}\<rparr>)} \<and>
   {2, 3} \<noteq> {1, 2::int} \<and>
   Inr (0, (0, 0), \<lparr>frees = {1}, items = \<lparr>defaultValue = 0::int, count = 2,
         segments = [\<lparr>seg_arr = [0, 0], seg_count = 2\<rparr>], segmentIdx = 0, segmentSize = 2,
         segmentSizeMask = 1, segmentSizeShift = 1\<rparr>\<rparr>)
     \<in> Pool_Alloc \<lparr>frees = {0, 1}, items = \<lparr>defaultValue = 0::int, count = 2,
         segments = [\<lparr>seg_arr = [0, 0], seg_count = 2\<rparr>], segmentIdx = 0, segmentSize = 2,
         segmentSizeMask = 1, segmentSizeShift = 1\<rparr>\<rparr> \<and>
   Pool_Free \<lparr>frees = {1}, items = \<lparr>defaultValue = 0::int, count = 2,
         segments = [\<lparr>seg_arr = [0, 0], seg_count = 2\<rparr>], segmentIdx = 0, segmentSize = 2,
         segmentSizeMask = 1, segmentSizeShift = 1\<rparr>\<rparr> 0
     = Inr \<lparr>frees = {0, 1}, items = \<lparr>defaultValue = 0::int, count = 2,
         segments = [\<lparr>seg_arr = [0, 0], seg_count = 2\<rparr>], segmentIdx = 0, segmentSize = 2,
         segmentSizeMask = 1, segmentSizeShift = 1\<rparr>\<rparr> \<and>
   Inr (1, (0, 1), \<lparr>frees = {0}, items = \<lparr>defaultValue = 0::int, count = 2,
         segments = [\<lparr>seg_arr = [0, 0], seg_count = 2\<rparr>], segmentIdx = 0, segmentSize = 2,
         segmentSizeMask = 1, segmentSizeShift = 1\<rparr>\<rparr>)
     \<in> Pool_Alloc \<lparr>frees = {0, 1}, items = \<lparr>defaultValue = 0::int, count = 2,
         segments = [\<lparr>seg_arr = [0, 0], seg_count = 2\<rparr>], segmentIdx = 0, segmentSize = 2,
         segmentSizeMask = 1, segmentSizeShift = 1\<rparr>\<rparr> \<and>
   {1} \<noteq> {0::int}"
proof (intro conjI)
  show "Inr (0, (0, 0), \<lparr>frees = {1}, items = \<lparr>defaultValue = 0::int, count = 2,
         segments = [\<lparr>seg_arr = [0, 0], seg_count = 2\<rparr>], segmentIdx = 0, segmentSize = 2,
         segmentSizeMask = 1, segmentSizeShift = 1\<rparr>\<rparr>)
     \<in> Pool_Alloc \<lparr>frees = {0, 1}, items = \<lparr>defaultValue = 0::int, count = 2,
         segments = [\<lparr>seg_arr = [0, 0], seg_count = 2\<rparr>], segmentIdx = 0, segmentSize = 2,
         segmentSizeMask = 1, segmentSizeShift = 1\<rparr>\<rparr>"
    by (auto simp: Pool_Alloc_def ArrayList_GetRef_def in_range_def Let_def image_iff)
  show "Inr (1, (0, 1), \<lparr>frees = {0}, items = \<lparr>defaultValue = 0::int, count = 2,
         segments = [\<lparr>seg_arr = [0, 0], seg_count = 2\<rparr>], segmentIdx = 0, segmentSize = 2,
         segmentSizeMask = 1, segmentSizeShift = 1\<rparr>\<rparr>)
     \<in> Pool_Alloc \<lparr>frees = {0, 1}, items = \<lparr>defaultValue = 0::int, count = 2,
         segments = [\<lparr>seg_arr = [0, 0], seg_count = 2\<rparr>], segmentIdx = 0, segmentSize = 2,
         segmentSizeMask = 1, segmentSizeShift = 1\<rparr>\<rparr>"
    by (auto simp: Pool_Alloc_def ArrayList_GetRef_def in_range_def Let_def image_iff)
  show "Pool_Free \<lparr>frees = {1}, items = \<lparr>defaultValue = 0::int, count = 2,
         segments = [\<lparr>seg_arr = [0, 0], seg_count = 2\<rparr>], segmentIdx = 0, segmentSize = 2,
         segmentSizeMask = 1, segmentSizeShift = 1\<rparr>\<rparr> 0
     = Inr \<lparr>frees = {0, 1}, items = \<lparr>defaultValue = 0::int, count = 2,
         segments = [\<lparr>seg_arr = [0, 0], seg_count = 2\<rparr>], segmentIdx = 0, segmentSize = 2,
         segmentSizeMask = 1, segmentSizeShift = 1\<rparr>\<rparr>"
    by (simp add: Pool_Free_def ArrayList_Count_def ArrayList_GetRef_def ArrayList_store_def
          in_range_def Let_def insert_commute)
  show "{1} \<noteq> {0::int}" by simp
  show "NewArrayPool 4 = Inr \<lparr>arr = [0, 0, 0, 0, 0::int], alloc = 1, free = {}\<rparr>"
    by (simp add: NewArrayPool_def make_slice_def eval_nat_numeral)
  show "ArrayPool_Alloc \<lparr>arr = [0, 0, 0, 0, 0::int], alloc = 1, free = {}\<rparr>
     = Some {(1, \<lparr>arr = [0, 0, 0, 0, 0], alloc = 2, free = {}\<rparr>)}"
    by (subst ArrayPool_Alloc.simps) simp
  show "ArrayPool_Alloc \<lparr>arr = [0, 0, 0, 0, 0::int], alloc = 2, free = {}\<rparr>
     = Some {(2, \<lparr>arr = [0, 0, 0, 0, 0], alloc = 3, free = {}\<rparr>)}"
    by (subst ArrayPool_Alloc.simps) simp
  show "ArrayPool_Alloc \<lparr>arr = [0, 0, 0, 0, 0::int], alloc = 2, free = {1}\<rparr>
     = Some {(2, \<lparr>arr = [0, 0, 0, 0, 0], alloc = 3, free = {1}\<rparr>)}"
    by (subst ArrayPool_Alloc.simps) simp
  show "ArrayPool_Alloc \<lparr>arr = [0, 0, 0, 0, 0::int], alloc = 3, free = {1}\<rparr>
     = Some {(3, \<lparr>arr = [0, 0, 0, 0, 0], alloc = 4, free = {1}\<rparr>)}"
    by (subst ArrayPool_Alloc.simps) simp
  show "{2, 3} \<noteq> {1, 2::int}"
  proof
    assume "{2, 3} = {1, 2::int}"
    then have "(3::int) \<in> {1, 2}" by (metis insertI1 insert_commute)
    then show False by simp
  qed
qed (simp_all add: ArrayPool_Free_def Let_def eval_nat_numeral)

theorem reuse_round_trip_witness:
  "(\<exists>ks p1 p2. Pool_inv (NewPool 2 :: int Pool) \<and> frees (NewPool 2 :: int Pool) = {} \<and>
      Pool_allocs (NewPool 2 :: int Pool) ks p1 \<and> length ks = 3 \<and>
      Pool_Free_all p1 (rev ks) = Inr p2 \<and>
      (\<exists>ks' p3. Pool_allocs p2 ks' p3 \<and> length ks' = length ks \<and> set ks' = set ks)) \<and>
   (\<exists>ap0 js ap1 ap2. NewArrayPool 1 = Inr ap0 \<and> ArrayPool_inv ap0 \<and> free ap0 = {} \<and>
      ArrayPool_allocs (ap0 :: int ArrayPool) js ap1 \<and> length js = 3 \<and>
      ArrayPool_Free_all ap1 (rev js) = Inr ap2 \<and>
      (\<exists>js' ap3. ArrayPool_allocs ap2 js' ap3 \<and> length js' = length js \<and> js' = js))"
proof
  let ?p = "NewPool 2 :: int Pool"
  have e: "frees ?p = {}" by (simp add: NewPool_def)
  from Pool_allocs_exist [OF Pool_inv_New_2, of 3] obtain ks and p1 :: "int Pool" where
    run: "Pool_allocs ?p ks p1" "length ks = 3" by blast
  from reuse_round_trip [THEN conjunct1, THEN mp, of ?p ks p1 "rev ks"] Pool_inv_New_2 e run(1)
  obtain p2 where p2: "Pool_Free_all p1 (rev ks) = Inr p2"
    and all: "\<forall>ks' p3. Pool_allocs p2 ks' p3 \<and> length ks' = length ks \<longrightarrow> set ks' = set ks"
    by auto
  have i1: "Pool_inv p1"
    using Pool_allocs_fresh [OF run(1) Pool_inv_New_2 e] by simp
  have "\<forall>i \<in> set (rev ks). 0 \<le> i \<and> i < count (items p1)"
    using Pool_allocs_fresh [OF run(1) Pool_inv_New_2 e]
      count_nonneg [OF Pool_invD(1) [OF Pool_inv_New_2 [where 'a = int]]]
    by (metis (no_types, lifting) add_nonneg_nonneg add_strict_left_mono imageE
        atLeastLessThan_iff of_nat_0_le_iff of_nat_less_iff set_map set_rev set_upt)
  from Pool_Free_all_inv [OF i1 this] p2 have "Pool_inv p2" by auto
  from Pool_allocs_exist [OF this, of "length ks"] obtain ks' p3 where
    r2: "Pool_allocs p2 ks' p3" "length ks' = length ks" by blast
  with all have "set ks' = set ks" by blast
  with run p2 r2 e Pool_inv_New_2 [where 'a = int]
  show "\<exists>ks p1 p2. Pool_inv ?p \<and> frees ?p = {} \<and>
      Pool_allocs ?p ks p1 \<and> length ks = 3 \<and>
      Pool_Free_all p1 (rev ks) = Inr p2 \<and>
      (\<exists>ks' p3. Pool_allocs p2 ks' p3 \<and> length ks' = length ks \<and> set ks' = set ks)"
    by blast
next
  let ?ap = "\<lparr>arr = [0, 0::int], alloc = 1, free = {}\<rparr>"
  have n: "NewArrayPool 1 = Inr ?ap"
    by (simp add: NewArrayPool_def make_slice_def eval_nat_numeral)
  have inv: "ArrayPool_inv ?ap" by (rule ArrayPool_inv_new [OF n])
  from ArrayPool_allocs_exist [OF inv, of 3] obtain js ap1 where
    run: "ArrayPool_allocs ?ap js ap1" "length js = 3" by blast
  from reuse_round_trip [THEN conjunct2, THEN mp, of ?ap js ap1] inv run(1)
  obtain ap2 where ap2: "ArrayPool_Free_all ap1 (rev js) = Inr ap2"
    and all: "\<forall>js' ap3. ArrayPool_allocs ap2 js' ap3 \<and> length js' = length js \<longrightarrow> js' = js"
    by auto
  have i1: "ArrayPool_inv ap1" "alloc ap1 = 1 + int (length js)"
    "js = map (\<lambda>j. 1 + int j) [0..<length js]"
    using ArrayPool_allocs_fresh [OF run(1) inv] by simp_all
  from ArrayPool_Free_all_rev [OF i1(1,2)] i1(3) ap2 have "ArrayPool_inv ap2" by auto
  from ArrayPool_allocs_exist [OF this, of "length js"] obtain js' ap3 where
    r2: "ArrayPool_allocs ap2 js' ap3" "length js' = length js" by blast
  with all have "js' = js" by blast
  with n inv run ap2 r2
  show "\<exists>ap0 js ap1 ap2. NewArrayPool 1 = Inr ap0 \<and> ArrayPool_inv ap0 \<and> free ap0 = {} \<and>
      ArrayPool_allocs (ap0 :: int ArrayPool) js ap1 \<and> length js = 3 \<and>
      ArrayPool_Free_all ap1 (rev js) = Inr ap2 \<and>
      (\<exists>js' ap3. ArrayPool_allocs ap2 js' ap3 \<and> length js' = length js \<and> js' = js)"
    by (intro exI [of _ ?ap] exI [of _ js] exI [of _ ap1] exI [of _ ap2]) auto
qed

end
